theory Spec2Isabelle
  imports Main
begin

section \<open>The log-expectation engine of varnishtest (vtc_logexp.c)\<close>

text \<open>
  The C \<open>int\<close> fields of the engine are modelled as HOL integers, with the bounds of
  a 32-bit \<open>int\<close> written out where the engine does arithmetic on them. The only such
  place is \<open>skip_cnt++\<close>: it is guarded by \<open>skip_max > skip_cnt\<close> whenever
  \<open>skip_max\<close> is not \<open>LE_ANY\<close> (so that \<open>skip_cnt\<close> stays between 0 and
  \<open>skip_max\<close>, lemma \<open>run_state_skip_cnt\<close>); while \<open>skip_max\<close> is \<open>LE_ANY\<close> the
  counter is not read, and it leaves the range of \<open>int\<close> at the increment that
  follows \<open>INT_MAX\<close>.
\<close>

definition LE_ANY :: int where
  "LE_ANY = - 1"

definition LE_LAST :: int where
  "LE_LAST = - 2"

definition INT_MAX :: int where
  "INT_MAX = 2 ^ 31 - 1"

definition INT_MIN :: int where
  "INT_MIN = - (2 ^ 31)"

text \<open>The values of an \<open>int\<close>.\<close>

definition is_int :: "int \<Rightarrow> bool" where
  "is_int x = (INT_MIN \<le> x \<and> x \<le> INT_MAX)"

text \<open>\<open>i++\<close> on an \<open>int\<close>. The C standard leaves the increment of \<open>INT_MAX\<close>
  undefined; the value written here for it is the one that two's complement
  arithmetic gives, \<open>INT_MIN\<close>.\<close>

definition int_incr :: "int \<Rightarrow> int" where
  "int_incr x = (x + 1 + 2 ^ 31) mod 2 ^ 32 - 2 ^ 31"

text \<open>\<open>struct logexp_test\<close>: one compiled \<open>expect\<close> line. The type \<open>'v\<close> is that of
  compiled regular expressions (\<open>vre_t\<close>).\<close>

record 'v logexp_test =
  str :: string
  vxid :: int
  tag :: int
  vre :: "'v option"
  skip_max :: int

text \<open>Modelled from the spec: the record accessors \<open>VSL_ID\<close>, \<open>VSL_TAG\<close>,
  \<open>VSL_CDATA\<close>, \<open>VSL_LEN\<close>, \<open>VSL_CLIENT\<close> and \<open>VSL_BACKEND\<close> are macros of the log
  API, which is not part of the sources. A record carries an identifier, a tag, a side
  classifier, and payload bytes with a declared length.\<close>

record vsl_rec =
  VSL_ID :: int
  VSL_TAG :: int
  VSL_CLIENT :: bool
  VSL_BACKEND :: bool
  VSL_CDATA :: string
  VSL_LEN :: int

text \<open>The messages of \<open>vtc_fatal\<close>, with their arguments. \<open>vtc_fatal\<close> does not return.\<close>

datatype fatal =
    F_expectation_failed
  | F_dispatch_failed int
  | F_syntax_error
  | F_not_positive_integer string
  | F_unknown_tag string
  | F_regex_error string string int
  | F_v_not_given
  | F_v_arg_error
  | F_VSM_Open
  | F_VSL_CursorVSM
  | F_VSLQ_New
  | F_logexp_returned
  | F_not_started string
  | F_missing_argument string
  | F_unknown_grouping string
  | F_VSL_Error
  | F_unknown_argument string
  | F_unknown_command string

text \<open>The calls the engine makes to its collaborators, in the order it makes them:
  the lines given to \<open>vtc_log\<close> (for a record: the legend, the vxid, the tag, the
  side and the text that \<open>%.*s\<close> prints), the calls of \<open>VRE_exec\<close> (with the
  subject pointer and the length passed), and the creation and the joining of the
  thread.\<close>

datatype 'v call =
    Log_begin
  | Log_qry string
  | Log_expecting string
  | Log_rec string int int char string
  | Log_end
  | Log_waiting
  | Log_fatal fatal
  | Call_VRE_exec 'v string int
  | Call_pthread_create
  | Call_pthread_join

text \<open>The collaborators and constants that the sources use but do not define: the tag
  of batch pseudo-records, the log source's own record selector, the regex engine, and
  the functions that open the log (\<open>VSL_CursorVSM\<close> and \<open>VSLQ_New\<close> say whether
  the pointer they return is not \<open>NULL\<close>), the table of tag names, the regex
  compiler (its error message and position, or the compiled expression), the
  quoting of a string buffer, and what the command \<open>logexpect\<close> uses: the flags
  \<open>vtc_error\<close> and \<open>vtc_stop\<close> of the test program (which other threads set; here
  they depend on the calls made so far), whether a thread that \<open>vtc_fatal\<close> stopped
  is joined with a result that is not \<open>NULL\<close>, the expansion of macros, the table of
  grouping names, the arguments that the log API takes, and the splitting of a
  specification into the token lists of its commands.\<close>

record 'v ext =
  SLT__Batch :: int
  VSL_Match :: "vsl_rec \<Rightarrow> bool"
  VRE_exec :: "'v \<Rightarrow> string \<Rightarrow> int \<Rightarrow> int"
  VRE_ERROR_NOMATCH :: int
  VSM_n_Arg :: "string \<Rightarrow> int"
  VSM_Open :: "string \<Rightarrow> int"
  VSL_CursorVSM :: "string \<Rightarrow> int \<Rightarrow> bool"
  VSLQ_New :: "int \<Rightarrow> string option \<Rightarrow> bool"
  VSL_Name2Tag :: "string \<Rightarrow> int"
  VRE_compile :: "string \<Rightarrow> (string \<times> int) + 'v"
  VSB_quote :: "string \<Rightarrow> string"
  vtc_error :: "'v call list \<Rightarrow> bool"
  vtc_stop :: "'v call list \<Rightarrow> bool"
  vtc_fatal_res :: bool
  macro_expand :: "string \<Rightarrow> string option"
  VSLQ_Name2Grouping :: "string \<Rightarrow> int"
  VSL_Arg :: "char \<Rightarrow> string \<Rightarrow> int"
  parse_string :: "string \<Rightarrow> string list list"

text \<open>\<open>struct logexp\<close>. The pointer \<open>test\<close> into the list \<open>tests\<close> is the position
  of the element it points to; \<open>None\<close> is \<open>NULL\<close>.\<close>

record 'v logexp =
  name :: string
  calls :: "'v call list"
  run :: bool
  tests :: "'v logexp_test list"
  test :: "nat option"
  skip_cnt :: int
  vxid_last :: int
  tag_last :: int
  d_arg :: int
  g_arg :: int
  query :: "string option"
  n_arg :: "string option"
  vsl_args :: "(char \<times> string) list"
  vslq :: bool

subsection \<open>Advancing the cursor\<close>

text \<open>\<open>logexp_next\<close>: from \<open>NULL\<close> to the first element of \<open>tests\<close>, otherwise to the
  element after the current one (\<open>NULL\<close> after the last); a new active test is logged.\<close>

definition logexp_next :: "'v logexp \<Rightarrow> 'v logexp" where
  "logexp_next le =
     (let le1 = le\<lparr>test :=
            (case test le of
               Some i \<Rightarrow> if Suc i < length (tests le) then Some (Suc i) else None
             | None \<Rightarrow> if tests le = [] then None else Some 0)\<rparr>
      in case test le1 of
           Some j \<Rightarrow> le1\<lparr>calls := calls le1 @ [Log_expecting (str (tests le1 ! j))]\<rparr>
         | None \<Rightarrow> le1)"

subsection \<open>One record against the active test\<close>

text \<open>The value of \<open>ok\<close> after the vxid, tag and regex checks of \<open>logexp_dispatch\<close>;
  \<open>len\<close> is \<open>VSL_LEN - 1\<close>.\<close>

definition rec_ok :: "'v ext \<Rightarrow> 'v logexp_test \<Rightarrow> 'v logexp \<Rightarrow> vsl_rec \<Rightarrow> bool" where
  "rec_ok ext p le r =
     (let len = VSL_LEN r - 1;
          ok0 = True;
          ok1 = (if vxid p = LE_LAST then (if vxid_last le \<noteq> VSL_ID r then False else ok0)
                 else if vxid p \<ge> 0 then (if vxid p \<noteq> VSL_ID r then False else ok0)
                 else ok0);
          ok2 = (if tag p = LE_LAST then (if tag_last le \<noteq> VSL_TAG r then False else ok1)
                 else if tag p \<ge> 0 then (if tag p \<noteq> VSL_TAG r then False else ok1)
                 else ok1)
      in case vre p of
           None \<Rightarrow> ok2
         | Some v \<Rightarrow>
             if tag p \<ge> 0 \<and> tag p = VSL_TAG r
                \<and> VRE_exec ext v (VSL_CDATA r) len = VRE_ERROR_NOMATCH ext
             then False else ok2)"

text \<open>The calls of \<open>VRE_exec\<close> made while \<open>ok\<close> is computed: the conjunction
  \<open>le->test->vre && le->test->tag >= 0 && le->test->tag == tag && ...\<close> reaches
  the call only when its first three conjuncts hold.\<close>

definition rec_vre_calls :: "'v logexp_test \<Rightarrow> vsl_rec \<Rightarrow> 'v call list" where
  "rec_vre_calls p r =
     (case vre p of
        None \<Rightarrow> []
      | Some v \<Rightarrow>
          if tag p \<ge> 0 \<and> tag p = VSL_TAG r
          then [Call_VRE_exec v (VSL_CDATA r) (VSL_LEN r - 1)] else [])"

definition rec_skip :: "'v logexp_test \<Rightarrow> 'v logexp \<Rightarrow> bool \<Rightarrow> bool" where
  "rec_skip p le ok =
     (let skip0 = False
      in if \<not> ok \<and> (skip_max p = LE_ANY \<or> skip_max p > skip_cnt le) then True else skip0)"

definition rec_legend :: "bool \<Rightarrow> bool \<Rightarrow> string option" where
  "rec_legend ok skip = (if ok then Some ''match'' else if skip then None else Some ''err'')"

definition rec_type :: "vsl_rec \<Rightarrow> char" where
  "rec_type r = (if VSL_CLIENT r then CHR ''c'' else if VSL_BACKEND r then CHR ''b'' else CHR ''-'')"

text \<open>The conversion \<open>%.*s\<close> of \<open>printf\<close>: the bytes up to the first NUL, and at most as
  many as the precision when that is not negative.\<close>

definition printf_prec_s :: "int \<Rightarrow> string \<Rightarrow> string" where
  "printf_prec_s n s =
     (let t = takeWhile (\<lambda>c. c \<noteq> CHR 0x00) s
      in if n < 0 then t else take (nat n) t)"

datatype abort = Assert_failed

text \<open>One turn of the loop \<open>while (1 == VSL_Next(t->c))\<close> of \<open>logexp_dispatch\<close>, on the
  record \<open>r\<close> that \<open>VSL_Next\<close> delivered. \<open>Inr (None, le')\<close>: the loop goes on;
  \<open>Inr (Some c, le')\<close>: \<open>return (c)\<close>; \<open>Inl Assert_failed\<close>: the assertion
  \<open>CHECK_OBJ_NOTNULL(le->test, ...)\<close> failed.\<close>

definition dispatch_record ::
    "'v ext \<Rightarrow> vsl_rec \<Rightarrow> 'v logexp \<Rightarrow> abort + (int option \<times> 'v logexp)" where
  "dispatch_record ext r le =
     (if \<not> VSL_Match ext r then Inr (None, le)
      else case test le of
        None \<Rightarrow> Inl Assert_failed
      | Some i \<Rightarrow>
          let p = tests le ! i;
              vxid' = VSL_ID r;
              tag' = VSL_TAG r;
              data = VSL_CDATA r;
              len = VSL_LEN r - 1
          in if tag' = SLT__Batch ext then Inr (None, le)
             else
               let ok = rec_ok ext p le r;
                   le1 = le\<lparr>calls := calls le @ rec_vre_calls p r\<rparr>;
                   skip = rec_skip p le1 ok;
                   legend = rec_legend ok skip;
                   type = rec_type r;
                   le2 = (case legend of
                            None \<Rightarrow> le1
                          | Some l \<Rightarrow> le1\<lparr>calls := calls le1 @
                                [Log_rec l vxid' tag' type (printf_prec_s len data)]\<rparr>)
               in if ok then
                    let le3 = logexp_next (le2\<lparr>vxid_last := vxid', tag_last := tag', skip_cnt := 0\<rparr>)
                    in if test le3 = None then Inr (Some 1, le3) else Inr (None, le3)
                  else if skip then Inr (None, le2\<lparr>skip_cnt := int_incr (skip_cnt le2)\<rparr>)
                  else Inr (Some 2, le2))"

text \<open>The loop \<open>while (1 == VSL_Next(t->c))\<close> over the records of one transaction.\<close>

fun dispatch_cursor ::
    "'v ext \<Rightarrow> vsl_rec list \<Rightarrow> 'v logexp \<Rightarrow> abort + (int option \<times> 'v logexp)" where
  "dispatch_cursor ext [] le = Inr (None, le)"
| "dispatch_cursor ext (r # rs) le =
     (case dispatch_record ext r le of
        Inl a \<Rightarrow> Inl a
      | Inr (Some c, le') \<Rightarrow> Inr (Some c, le')
      | Inr (None, le') \<Rightarrow> dispatch_cursor ext rs le')"

text \<open>\<open>logexp_dispatch\<close>: the loop \<open>for (i = 0; (t = pt[i]); i++)\<close> over the
  transactions, and \<open>return (0)\<close> after it.\<close>

fun logexp_dispatch ::
    "'v ext \<Rightarrow> vsl_rec list list \<Rightarrow> 'v logexp \<Rightarrow> abort + (int \<times> 'v logexp)" where
  "logexp_dispatch ext [] le = Inr (0, le)"
| "logexp_dispatch ext (t # pt) le =
     (case dispatch_cursor ext t le of
        Inl a \<Rightarrow> Inl a
      | Inr (Some c, le') \<Rightarrow> Inr (c, le')
      | Inr (None, le') \<Rightarrow> logexp_dispatch ext pt le')"

subsection \<open>The three outcomes of a record\<close>

text \<open>A record is judged against the active test when it passes \<open>VSL_Match\<close> and is
  not a batch pseudo-record; the three branches \<open>if (ok) ... else if (skip) ... else ...\<close>
  are the three classifications.\<close>

datatype classification = MATCH | SKIP | FAIL

definition reaches_classification :: "'v ext \<Rightarrow> vsl_rec \<Rightarrow> bool" where
  "reaches_classification ext r = (VSL_Match ext r \<and> VSL_TAG r \<noteq> SLT__Batch ext)"

definition classify ::
    "'v ext \<Rightarrow> 'v logexp_test \<Rightarrow> 'v logexp \<Rightarrow> vsl_rec \<Rightarrow> classification" where
  "classify ext p le r =
     (let ok = rec_ok ext p le r; skip = rec_skip p le ok
      in if ok then MATCH else if skip then SKIP else FAIL)"

text \<open>The calls added between two states of the engine.\<close>

definition new_calls :: "'v logexp \<Rightarrow> 'v logexp \<Rightarrow> 'v call list" where
  "new_calls le le' = drop (length (calls le)) (calls le')"

text \<open>The classifications made, in order, while \<open>dispatch_cursor\<close> runs over a list of
  records: the run of the loop is followed with \<open>dispatch_record\<close> itself.\<close>

fun classes :: "'v ext \<Rightarrow> vsl_rec list \<Rightarrow> 'v logexp \<Rightarrow> classification list" where
  "classes ext [] le = []"
| "classes ext (r # rs) le =
     (case dispatch_record ext r le of
        Inl a \<Rightarrow> []
      | Inr (x, le') \<Rightarrow>
          (case test le of
             None \<Rightarrow> []
           | Some i \<Rightarrow>
               if reaches_classification ext r then [classify ext (tests le ! i) le r] else [])
          @ (case x of None \<Rightarrow> classes ext rs le' | Some c \<Rightarrow> []))"

subsection \<open>The thread\<close>

text \<open>Modelled from the spec: \<open>VSLQ_Dispatch\<close> belongs to the log API, which is not
  part of the sources. A call hands the next available batch of transactions to the
  callback; the call returns what the callback returned when that is not zero, and the
  source's own status otherwise (the pair is the batch and that status).\<close>

definition VSLQ_Dispatch ::
    "'v ext \<Rightarrow> vsl_rec list list \<times> int \<Rightarrow> 'v logexp \<Rightarrow> abort + (int \<times> 'v logexp)" where
  "VSLQ_Dispatch ext b le =
     (case logexp_dispatch ext (fst b) le of
        Inl a \<Rightarrow> Inl a
      | Inr (i, le') \<Rightarrow> Inr (if i \<noteq> 0 then i else snd b, le'))"

datatype thread_exit =
    Thread_returned
  | Thread_fatal fatal
  | Thread_aborted
  | Thread_running

text \<open>The loop \<open>while (le->test)\<close> of \<open>logexp_thread\<close>. The list holds what the log
  source delivers at each call of \<open>VSLQ_Dispatch\<close>; when the list is used up and the
  loop is still open, the thread is still running (\<open>Thread_running\<close>). The sleep
  of 10 ms has no effect on the state.\<close>

fun thread_loop ::
    "'v ext \<Rightarrow> (vsl_rec list list \<times> int) list \<Rightarrow> 'v logexp \<Rightarrow> thread_exit \<times> 'v logexp" where
  "thread_loop ext [] le =
     (case test le of None \<Rightarrow> (Thread_returned, le) | Some j \<Rightarrow> (Thread_running, le))"
| "thread_loop ext (b # src) le =
     (case test le of
        None \<Rightarrow> (Thread_returned, le)
      | Some j \<Rightarrow>
          (case VSLQ_Dispatch ext b le of
             Inl a \<Rightarrow> (Thread_aborted, le)
           | Inr (i, le') \<Rightarrow>
               if i = 2 then
                 (Thread_fatal F_expectation_failed,
                  le'\<lparr>calls := calls le' @ [Log_fatal F_expectation_failed]\<rparr>)
               else if i < 0 then
                 (Thread_fatal (F_dispatch_failed i),
                  le'\<lparr>calls := calls le' @ [Log_fatal (F_dispatch_failed i)]\<rparr>)
               else thread_loop ext src le'))"

text \<open>\<open>logexp_thread\<close> up to its loop: the assertions, the first lines of the log and
  the first \<open>logexp_next\<close>.\<close>

definition thread_entry :: "'v logexp \<Rightarrow> 'v logexp" where
  "thread_entry le =
     (let le1 = le\<lparr>calls := calls le @ [Log_begin]\<rparr>;
          le2 = (case query le1 of
                   None \<Rightarrow> le1
                 | Some q \<Rightarrow> le1\<lparr>calls := calls le1 @ [Log_qry q]\<rparr>)
      in logexp_next le2)"

definition logexp_thread ::
    "'v ext \<Rightarrow> (vsl_rec list list \<times> int) list \<Rightarrow> 'v logexp \<Rightarrow> thread_exit \<times> 'v logexp" where
  "logexp_thread ext src le =
     (if \<not> run le \<or> \<not> vslq le \<or> test le \<noteq> None then (Thread_aborted, le)
      else case thread_loop ext src (thread_entry le) of
        (Thread_returned, le') \<Rightarrow> (Thread_returned, le'\<lparr>calls := calls le' @ [Log_end]\<rparr>)
      | (x, le') \<Rightarrow> (x, le'))"

text \<open>The classifications made during the loop of the thread.\<close>

fun thread_classes ::
    "'v ext \<Rightarrow> (vsl_rec list list \<times> int) list \<Rightarrow> 'v logexp \<Rightarrow> classification list" where
  "thread_classes ext [] le = []"
| "thread_classes ext (b # src) le =
     (case test le of
        None \<Rightarrow> []
      | Some j \<Rightarrow>
          classes ext (concat (fst b)) le @
          (case VSLQ_Dispatch ext b le of
             Inl a \<Rightarrow> []
           | Inr (i, le') \<Rightarrow> if i = 2 \<or> i < 0 then [] else thread_classes ext src le'))"

text \<open>How a command of the test script ends: it returns, \<open>vtc_fatal\<close> stops it, an
  assertion fails, or it waits for a thread that is still running.\<close>

datatype cmd_exit =
    Cmd_done
  | Cmd_fatal fatal
  | Cmd_aborted
  | Cmd_blocked

text \<open>The part of \<open>logexp_start\<close> that resets the cursor and marks the engine as
  running, just before the thread is created.\<close>

definition start_reset :: "'v logexp \<Rightarrow> 'v logexp" where
  "start_reset le =
     le\<lparr>test := None, skip_cnt := 0, vxid_last := - 1, tag_last := - 1, run := True\<rparr>"

text \<open>\<open>logexp_start\<close>: the log is opened, the cursor is reset and the thread is
  created. The thread then runs \<open>logexp_thread\<close> on the engine.\<close>

definition logexp_start :: "'v ext \<Rightarrow> 'v logexp \<Rightarrow> cmd_exit \<times> 'v logexp" where
  "logexp_start ext le =
     (if vslq le then (Cmd_aborted, le)
      else case n_arg le of
        None \<Rightarrow> (Cmd_fatal F_v_not_given, le)
      | Some n \<Rightarrow>
          if VSM_n_Arg ext n \<le> 0 then (Cmd_fatal F_v_arg_error, le)
          else if VSM_Open ext n \<noteq> 0 then (Cmd_fatal F_VSM_Open, le)
          else if \<not> VSL_CursorVSM ext n (d_arg le) then (Cmd_fatal F_VSL_CursorVSM, le)
          else if \<not> VSLQ_New ext (g_arg le) (query le) then (Cmd_fatal F_VSLQ_New, le)
          else
            let le1 = start_reset (le\<lparr>vslq := True\<rparr>)
            in (Cmd_done, le1\<lparr>calls := calls le1 @ [Call_pthread_create]\<rparr>))"

text \<open>The states of the engine during a run, with the records that matched so far:
  the state in which the thread enters its loop after \<open>logexp_start\<close>, and every
  state in which the loop over the records goes on.\<close>

inductive run_state :: "'v ext \<Rightarrow> 'v logexp \<Rightarrow> vsl_rec list \<Rightarrow> 'v logexp \<Rightarrow> bool"
  for ext :: "'v ext" and le0 :: "'v logexp" where
  run_start:
    "logexp_start ext le0 = (Cmd_done, le1) \<Longrightarrow> run_state ext le0 [] (thread_entry le1)"
| run_step:
    "run_state ext le0 ms le \<Longrightarrow> dispatch_record ext r le = Inr (None, le') \<Longrightarrow>
     test le = Some i \<Longrightarrow>
     ms' = (if reaches_classification ext r \<and> classify ext (tests le ! i) le r = MATCH
            then ms @ [r] else ms) \<Longrightarrow>
     run_state ext le0 ms' le'"

code_pred run_state .

subsection \<open>Compiling an \<open>expect\<close> line\<close>

text \<open>\<open>strtol\<close> of the C library with base 10, on a string without NUL: white space
  is skipped, a sign is read, then digits; the value is kept within the range of
  \<open>long\<close> (64 bits); the second component is the rest of the string at \<open>*end\<close>, and
  is the whole string when there is no digit to convert.\<close>

definition isspace :: "char \<Rightarrow> bool" where
  "isspace c = (c = CHR '' '' \<or> c = CHR 0x09 \<or> c = CHR 0x0A \<or> c = CHR 0x0B
                 \<or> c = CHR 0x0C \<or> c = CHR 0x0D)"

definition isdigit :: "char \<Rightarrow> bool" where
  "isdigit c = (48 \<le> (of_char c :: nat) \<and> (of_char c :: nat) \<le> 57)"

fun strtol_digits :: "int \<Rightarrow> string \<Rightarrow> int \<times> string" where
  "strtol_digits acc [] = (acc, [])"
| "strtol_digits acc (c # cs) =
     (if isdigit c then strtol_digits (acc * 10 + (of_char c - 48)) cs else (acc, c # cs))"

definition LONG_MAX :: int where
  "LONG_MAX = 2 ^ 63 - 1"

definition LONG_MIN :: int where
  "LONG_MIN = - (2 ^ 63)"

definition strtol :: "string \<Rightarrow> int \<times> string" where
  "strtol s =
     (let t = dropWhile isspace s;
          neg = (case t of [] \<Rightarrow> False | c # cs \<Rightarrow> c = CHR ''-'');
          u = (case t of [] \<Rightarrow> [] | c # cs \<Rightarrow> if c = CHR ''-'' \<or> c = CHR ''+'' then cs else t)
      in case u of
           [] \<Rightarrow> (0, s)
         | c # cs \<Rightarrow>
             if isdigit c then
               (let (v, rest) = strtol_digits 0 u;
                    w = (if neg then - v else v)
                in (max LONG_MIN (min LONG_MAX w), rest))
             else (0, s))"

text \<open>The cast \<open>(int)\<close> of a \<open>long\<close>: the low 32 bits, read as a signed number.\<close>

definition int_of_long :: "int \<Rightarrow> int" where
  "int_of_long x = (x + 2 ^ 31) mod 2 ^ 32 - 2 ^ 31"

text \<open>The three tokens of an \<open>expect\<close> line, in the order \<open>cmd_logexp_expect\<close> reads
  them: the value for the field, or the fatal error.\<close>

definition expect_skip :: "string \<Rightarrow> fatal + int" where
  "expect_skip a =
     (if a = ''*'' then Inr LE_ANY
      else
        let skip_max' = int_of_long (fst (strtol a)); rest = snd (strtol a)
        in if rest \<noteq> [] then Inl (F_not_positive_integer a)
           else if skip_max' < 0 then Inl (F_not_positive_integer a)
           else Inr skip_max')"

definition expect_vxid :: "string \<Rightarrow> fatal + int" where
  "expect_vxid a =
     (if a = ''*'' then Inr LE_ANY
      else if a = ''='' then Inr LE_LAST
      else
        let vxid' = int_of_long (fst (strtol a)); rest = snd (strtol a)
        in if rest \<noteq> [] then Inl (F_not_positive_integer a)
           else if vxid' < 0 then Inl (F_not_positive_integer a)
           else Inr vxid')"

definition expect_tag :: "'v ext \<Rightarrow> string \<Rightarrow> fatal + int" where
  "expect_tag ext a =
     (if a = ''*'' then Inr LE_ANY
      else if a = ''='' then Inr LE_LAST
      else
        let tag' = VSL_Name2Tag ext a
        in if tag' < 0 then Inl (F_unknown_tag a) else Inr tag')"

definition expect_vre :: "'v ext \<Rightarrow> string list \<Rightarrow> fatal + 'v option" where
  "expect_vre ext av =
     (if 4 < length av then
        (case VRE_compile ext (av ! 4) of
           Inl (err, pos) \<Rightarrow> Inl (F_regex_error err (av ! 4) pos)
         | Inr v \<Rightarrow> Inr (Some v))
      else Inr None)"

text \<open>\<open>cmd_logexp_expect\<close>. The array \<open>av\<close> is the list of its strings before the
  closing \<open>NULL\<close>; \<open>av[0]\<close> is the name of the command. A fatal error leaves the
  engine as it was.\<close>

definition cmd_logexp_expect ::
    "'v ext \<Rightarrow> string list \<Rightarrow> 'v logexp \<Rightarrow> cmd_exit \<times> 'v logexp" where
  "cmd_logexp_expect ext av le =
     (if length av < 4 then (Cmd_fatal F_syntax_error, le)
      else if 5 < length av then (Cmd_fatal F_syntax_error, le)
      else case expect_skip (av ! 1) of
        Inl f \<Rightarrow> (Cmd_fatal f, le)
      | Inr skip_max' \<Rightarrow>
      (case expect_vxid (av ! 2) of
        Inl f \<Rightarrow> (Cmd_fatal f, le)
      | Inr vxid' \<Rightarrow>
      (case expect_tag ext (av ! 3) of
        Inl f \<Rightarrow> (Cmd_fatal f, le)
      | Inr tag' \<Rightarrow>
      (case expect_vre ext av of
        Inl f \<Rightarrow> (Cmd_fatal f, le)
      | Inr vre' \<Rightarrow>
          (Cmd_done,
           le\<lparr>tests := tests le @
              [\<lparr>str = av ! 0 @ '' '' @ av ! 1 @ '' '' @ av ! 2 @ '' '' @ av ! 3 @ '' ''
                       @ (if 4 < length av then VSB_quote ext (av ! 4) else []),
                vxid = vxid', tag = tag', vre = vre', skip_max = skip_max'\<rparr>]\<rparr>)))))"

subsection \<open>The command \<open>logexpect\<close>\<close>

definition logexp_close :: "'v logexp \<Rightarrow> 'v logexp" where
  "logexp_close le = le\<lparr>vslq := False\<rparr>"

text \<open>\<open>logexp_wait\<close>. The thread that \<open>logexp_start\<close> created has run on the engine
  since then; its work is accounted for when it is joined. The list \<open>ws\<close> holds, for
  each thread still to be joined, what the log source delivers to it. Joining a thread
  that is still running does not return.\<close>

definition logexp_wait ::
    "'v ext \<Rightarrow> (vsl_rec list list \<times> int) list list \<Rightarrow> 'v logexp
      \<Rightarrow> cmd_exit \<times> (vsl_rec list list \<times> int) list list \<times> 'v logexp" where
  "logexp_wait ext ws le =
     (let src = (case ws of [] \<Rightarrow> [] | w # ws' \<Rightarrow> w);
          ws1 = tl ws
      in case logexp_thread ext src le of
           (Thread_running, le1) \<Rightarrow>
             (Cmd_blocked, ws1, le1\<lparr>calls := calls le1 @ [Log_waiting]\<rparr>)
         | (Thread_aborted, le1) \<Rightarrow> (Cmd_aborted, ws1, le1)
         | (x, le1) \<Rightarrow>
             let le2 = logexp_close (le1\<lparr>calls := calls le1 @ [Log_waiting, Call_pthread_join]\<rparr>);
                 res = (case x of Thread_fatal f \<Rightarrow> vtc_fatal_res ext | _ \<Rightarrow> False)
             in if res \<and> \<not> vtc_stop ext (calls le2)
                then (Cmd_fatal F_logexp_returned, ws1, le2)
                else (Cmd_done, ws1, le2\<lparr>run := False\<rparr>))"

text \<open>Modelled from the spec: \<open>parse_string\<close> belongs to the test program's command
  dispatcher, which is not part of the sources. It runs the commands of a
  specification in order, each with the function its name has in the table
  \<open>logexp_cmds\<close>, which knows \<open>expect\<close> only.\<close>

fun run_logexp_cmds :: "'v ext \<Rightarrow> string list list \<Rightarrow> 'v logexp \<Rightarrow> cmd_exit \<times> 'v logexp" where
  "run_logexp_cmds ext [] le = (Cmd_done, le)"
| "run_logexp_cmds ext (av # cmds) le =
     (if av = [] then run_logexp_cmds ext cmds le
      else if hd av = ''expect'' then
        (case cmd_logexp_expect ext av le of
           (Cmd_done, le') \<Rightarrow> run_logexp_cmds ext cmds le'
         | (x, le') \<Rightarrow> (x, le'))
      else (Cmd_fatal (F_unknown_command (hd av)), le))"

text \<open>\<open>logexp_spec\<close>: the tests are deleted, then the specification is compiled.\<close>

definition logexp_spec :: "'v ext \<Rightarrow> string \<Rightarrow> 'v logexp \<Rightarrow> cmd_exit \<times> 'v logexp" where
  "logexp_spec ext spec le = run_logexp_cmds ext (parse_string ext spec) (le\<lparr>tests := []\<rparr>)"

text \<open>One argument of \<open>logexpect\<close> other than \<open>-wait\<close>, after the implicit wait: the
  chain of \<open>if\<close>s of the loop of \<open>cmd_logexpect\<close>, from \<open>-v\<close> to \<open>logexp_spec\<close>;
  \<open>nxt\<close> is \<open>av[1]\<close>. The result says how the command ends, if it ends here, and
  whether \<open>av[1]\<close> was used up.\<close>

definition handle_arg ::
    "'v ext \<Rightarrow> string \<Rightarrow> string option \<Rightarrow> (vsl_rec list list \<times> int) list list \<Rightarrow> 'v logexp
      \<Rightarrow> cmd_exit option \<times> bool \<times> (vsl_rec list list \<times> int) list list \<times> 'v logexp" where
  "handle_arg ext a nxt ws le =
     (if a = ''-v'' then
        (case nxt of
           None \<Rightarrow> (Some (Cmd_fatal (F_missing_argument a)), False, ws, le)
         | Some b \<Rightarrow>
             (case macro_expand ext (''${tmpdir}/'' @ b) of
                None \<Rightarrow> (Some Cmd_done, False, ws, le\<lparr>n_arg := None\<rparr>)
              | Some n \<Rightarrow> (None, True, ws, le\<lparr>n_arg := Some n\<rparr>)))
      else if a = ''-d'' then
        (case nxt of
           None \<Rightarrow> (Some (Cmd_fatal (F_missing_argument a)), False, ws, le)
         | Some b \<Rightarrow> (None, True, ws, le\<lparr>d_arg := int_of_long (fst (strtol b))\<rparr>))
      else if a = ''-g'' then
        (case nxt of
           None \<Rightarrow> (Some (Cmd_fatal (F_missing_argument a)), False, ws, le)
         | Some b \<Rightarrow>
             let le1 = le\<lparr>g_arg := VSLQ_Name2Grouping ext b\<rparr>
             in if g_arg le1 < 0 then (Some (Cmd_fatal (F_unknown_grouping b)), False, ws, le1)
                else (None, True, ws, le1))
      else if a = ''-q'' then
        (case nxt of
           None \<Rightarrow> (Some (Cmd_fatal (F_missing_argument a)), False, ws, le)
         | Some b \<Rightarrow> (None, True, ws, le\<lparr>query := Some b\<rparr>))
      else if a = ''-start'' then
        (case logexp_start ext le of
           (Cmd_done, le1) \<Rightarrow> (None, False, ws, le1)
         | (x, le1) \<Rightarrow> (Some x, False, ws, le1))
      else if a = ''-run'' then
        (case logexp_start ext le of
           (Cmd_done, le1) \<Rightarrow>
             (case logexp_wait ext ws le1 of
                (Cmd_done, ws2, le2) \<Rightarrow> (None, False, ws2, le2)
              | (x, ws2, le2) \<Rightarrow> (Some x, False, ws2, le2))
         | (x, le1) \<Rightarrow> (Some x, False, ws, le1))
      else if a \<noteq> [] \<and> hd a = CHR ''-'' then
        (case nxt of
           None \<Rightarrow> (Some (Cmd_fatal (F_unknown_argument a)), False, ws, le)
         | Some b \<Rightarrow>
             let c = (if 1 < length a then a ! 1 else CHR 0x00)
             in if VSL_Arg ext c b \<noteq> 0
                then (None, True, ws,
                      if 0 < VSL_Arg ext c b then le\<lparr>vsl_args := vsl_args le @ [(c, b)]\<rparr> else le)
                else (Some (Cmd_fatal F_VSL_Error), False, ws, le))
      else
        (case logexp_spec ext a le of
           (Cmd_done, le1) \<Rightarrow> (None, False, ws, le1)
         | (x, le1) \<Rightarrow> (Some x, False, ws, le1)))"

text \<open>The loop \<open>for (; *av != NULL; av++)\<close> of \<open>cmd_logexpect\<close>, for the engine that
  the command names.\<close>

fun logexpect_args ::
    "'v ext \<Rightarrow> string list \<Rightarrow> (vsl_rec list list \<times> int) list list \<Rightarrow> 'v logexp
      \<Rightarrow> cmd_exit \<times> (vsl_rec list list \<times> int) list list \<times> 'v logexp" where
  "logexpect_args ext [] ws le = (Cmd_done, ws, le)"
| "logexpect_args ext (a # av) ws le =
     (if vtc_error ext (calls le) then (Cmd_done, ws, le)
      else if a = ''-wait'' then
        (if \<not> run le then (Cmd_fatal (F_not_started a), ws, le)
         else case logexp_wait ext ws le of
           (Cmd_done, ws1, le1) \<Rightarrow> logexpect_args ext av ws1 le1
         | (x, ws1, le1) \<Rightarrow> (x, ws1, le1))
      else
        (case (if run le then logexp_wait ext ws le else (Cmd_done, ws, le)) of
           (Cmd_done, ws1, le1) \<Rightarrow>
             if run le1 then (Cmd_aborted, ws1, le1)
             else
               (case handle_arg ext a (case av of [] \<Rightarrow> None | b # av' \<Rightarrow> Some b) ws1 le1 of
                  (Some x, c, ws2, le2) \<Rightarrow> (x, ws2, le2)
                | (None, c, ws2, le2) \<Rightarrow>
                    logexpect_args ext (if c then tl av else av) ws2 le2)
         | (x, ws1, le1) \<Rightarrow> (x, ws1, le1)))"

text \<open>The configuration of an engine and its list of tests.\<close>

definition le_config ::
    "'v logexp \<Rightarrow> 'v logexp_test list \<times> string option \<times> int \<times> int \<times> string option
       \<times> (char \<times> string) list" where
  "le_config le = (tests le, n_arg le, d_arg le, g_arg le, query le, vsl_args le)"

text \<open>The states of the engine between the steps of that loop: the state in which each
  wait and each handling of an argument begins, and the state in which the last one
  ends.\<close>

fun logexpect_states ::
    "'v ext \<Rightarrow> string list \<Rightarrow> (vsl_rec list list \<times> int) list list \<Rightarrow> 'v logexp
      \<Rightarrow> 'v logexp list" where
  "logexpect_states ext [] ws le = [le]"
| "logexpect_states ext (a # av) ws le =
     (if vtc_error ext (calls le) then [le]
      else if a = ''-wait'' then
        (if \<not> run le then [le]
         else case logexp_wait ext ws le of
           (Cmd_done, ws1, le1) \<Rightarrow> le # logexpect_states ext av ws1 le1
         | (x, ws1, le1) \<Rightarrow> [le, le1])
      else
        (case (if run le then logexp_wait ext ws le else (Cmd_done, ws, le)) of
           (Cmd_done, ws1, le1) \<Rightarrow>
             (if run le then [le] else []) @
             (if run le1 then [le1]
              else
                (case handle_arg ext a (case av of [] \<Rightarrow> None | b # av' \<Rightarrow> Some b) ws1 le1 of
                   (Some x, c, ws2, le2) \<Rightarrow> [le1, le2]
                 | (None, c, ws2, le2) \<Rightarrow>
                     le1 # logexpect_states ext (if c then tl av else av) ws2 le2))
         | (x, ws1, le1) \<Rightarrow> [le, le1]))"

subsection \<open>Concrete engines and records\<close>

text \<open>A regex engine for the examples: a compiled expression is a literal text, found
  when the subject of the given length begins with it; \<open>- 1\<close> is "no match".\<close>

definition ex_ext :: "string ext" where
  "ex_ext =
     \<lparr>SLT__Batch = 255,
      VSL_Match = (\<lambda>r. True),
      VRE_exec = (\<lambda>v s n. if 0 \<le> n \<and> take (length v) (take (nat n) s) = v then 0 else - 1),
      VRE_ERROR_NOMATCH = - 1,
      VSM_n_Arg = (\<lambda>n. 1),
      VSM_Open = (\<lambda>n. 0),
      VSL_CursorVSM = (\<lambda>n d. True),
      VSLQ_New = (\<lambda>g q. True),
      VSL_Name2Tag = (\<lambda>n. if n = ''ReqStart'' then 10 else if n = ''ReqEnd'' then 11
                          else if n = ''ReqURL'' then 30 else - 1),
      VRE_compile = (\<lambda>p. if p = ''('' then Inl (''missing )'', 1) else Inr p),
      VSB_quote = (\<lambda>p. CHR 0x22 # p @ [CHR 0x22]),
      vtc_error = (\<lambda>cs. False),
      vtc_stop = (\<lambda>cs. False),
      vtc_fatal_res = False,
      macro_expand = (\<lambda>p. Some p),
      VSLQ_Name2Grouping = (\<lambda>g. if g = ''raw'' then 0 else if g = ''vxid'' then 1 else - 1),
      VSL_Arg = (\<lambda>c a. if c = CHR ''i'' then 1 else 0),
      parse_string = (\<lambda>p. if p = [] then [] else [[''expect'', ''0'', ''*'', p]])\<rparr>"

text \<open>A client record: the declared length counts the payload and the NUL after it.\<close>

definition ex_rec :: "int \<Rightarrow> int \<Rightarrow> string \<Rightarrow> vsl_rec" where
  "ex_rec t x payload =
     \<lparr>VSL_ID = x, VSL_TAG = t, VSL_CLIENT = True, VSL_BACKEND = False,
      VSL_CDATA = payload @ [CHR 0x00], VSL_LEN = int (length payload) + 1\<rparr>"

definition ex_test :: "int \<Rightarrow> int \<Rightarrow> int \<Rightarrow> string option \<Rightarrow> string logexp_test" where
  "ex_test s x t re = \<lparr>str = ''expect'', vxid = x, tag = t, vre = re, skip_max = s\<rparr>"

text \<open>An engine as \<open>logexp_new\<close> leaves it (its grouping is \<open>VSL_g_vxid\<close>, which
  the table of \<open>ex_ext\<close> numbers 1), with a list of tests.\<close>

definition ex_le :: "string logexp_test list \<Rightarrow> string logexp" where
  "ex_le ts =
     \<lparr>name = ''l1'', calls = [], run = False, tests = ts, test = None, skip_cnt = 0,
      vxid_last = 0, tag_last = 0, d_arg = 0, g_arg = 1, query = None, n_arg = None,
      vsl_args = [], vslq = False\<rparr>"

text \<open>The same engine inside a run, with the given test active.\<close>

definition ex_running :: "string logexp_test list \<Rightarrow> nat \<Rightarrow> int \<Rightarrow> string logexp" where
  "ex_running ts i k =
     (ex_le ts)\<lparr>run := True, vslq := True, test := Some i, skip_cnt := k,
                vxid_last := - 1, tag_last := - 1\<rparr>"

subsection \<open>Measures of a run\<close>

text \<open>The number of tests that are still to be matched, and the cursor pointing into
  the list.\<close>

definition remaining :: "'v logexp \<Rightarrow> nat" where
  "remaining le = (case test le of None \<Rightarrow> 0 | Some i \<Rightarrow> length (tests le) - i)"

definition cursor_ok :: "'v logexp \<Rightarrow> bool" where
  "cursor_ok le = (case test le of None \<Rightarrow> True | Some i \<Rightarrow> i < length (tests le))"

section \<open>Properties\<close>

subsection \<open>The cursor\<close>

lemma logexp_next_fields:
  "vxid_last (logexp_next le) = vxid_last le"
  "tag_last (logexp_next le) = tag_last le"
  "skip_cnt (logexp_next le) = skip_cnt le"
  "tests (logexp_next le) = tests le"
  "run (logexp_next le) = run le"
  by (simp_all add: logexp_next_def Let_def split: option.splits)

lemma logexp_next_test:
  "test (logexp_next le) =
     (case test le of
        Some i \<Rightarrow> if Suc i < length (tests le) then Some (Suc i) else None
      | None \<Rightarrow> if tests le = [] then None else Some 0)"
  by (simp add: logexp_next_def Let_def split: option.splits)

lemma logexp_next_calls:
  "calls (logexp_next le) = calls le @
     (case test (logexp_next le) of
        Some j \<Rightarrow> [Log_expecting (str (tests le ! j))]
      | None \<Rightarrow> [])"
  by (simp add: logexp_next_def Let_def split: option.splits)

subsection \<open>The three branches of one record\<close>

lemma classify_MATCH: "classify ext p le r = MATCH \<longleftrightarrow> rec_ok ext p le r"
  by (simp add: classify_def Let_def)

lemma classify_SKIP:
  "classify ext p le r = SKIP \<longleftrightarrow>
     \<not> rec_ok ext p le r \<and> (skip_max p = LE_ANY \<or> skip_cnt le < skip_max p)"
  by (auto simp add: classify_def Let_def rec_skip_def)

lemma classify_FAIL:
  "classify ext p le r = FAIL \<longleftrightarrow>
     \<not> rec_ok ext p le r \<and> \<not> (skip_max p = LE_ANY \<or> skip_cnt le < skip_max p)"
  by (auto simp add: classify_def Let_def rec_skip_def)

lemma dispatch_record_filtered:
  "\<not> reaches_classification ext r \<Longrightarrow> test le = Some i \<Longrightarrow>
     dispatch_record ext r le = Inr (None, le)"
  by (auto simp add: dispatch_record_def reaches_classification_def Let_def)

lemma dispatch_record_ok:
  assumes "reaches_classification ext r" "test le = Some i"
    and "rec_ok ext (tests le ! i) le r"
  shows "dispatch_record ext r le =
     (let le3 = logexp_next (le\<lparr>calls := calls le @ rec_vre_calls (tests le ! i) r @
                   [Log_rec ''match'' (VSL_ID r) (VSL_TAG r) (rec_type r)
                      (printf_prec_s (VSL_LEN r - 1) (VSL_CDATA r))],
                 vxid_last := VSL_ID r, tag_last := VSL_TAG r, skip_cnt := 0\<rparr>)
      in Inr (if test le3 = None then Some 1 else None, le3))"
  using assms
  by (simp add: dispatch_record_def reaches_classification_def Let_def rec_legend_def)

lemma dispatch_record_skip:
  assumes "reaches_classification ext r" "test le = Some i"
    and "\<not> rec_ok ext (tests le ! i) le r"
    and "skip_max (tests le ! i) = LE_ANY \<or> skip_cnt le < skip_max (tests le ! i)"
  shows "dispatch_record ext r le =
     Inr (None, le\<lparr>calls := calls le @ rec_vre_calls (tests le ! i) r,
                    skip_cnt := int_incr (skip_cnt le)\<rparr>)"
  using assms
  by (auto simp add: dispatch_record_def reaches_classification_def Let_def
      rec_legend_def rec_skip_def)

lemma dispatch_record_err:
  assumes "reaches_classification ext r" "test le = Some i"
    and "\<not> rec_ok ext (tests le ! i) le r"
    and "\<not> (skip_max (tests le ! i) = LE_ANY \<or> skip_cnt le < skip_max (tests le ! i))"
  shows "dispatch_record ext r le =
     Inr (Some 2, le\<lparr>calls := calls le @ rec_vre_calls (tests le ! i) r @
                   [Log_rec ''err'' (VSL_ID r) (VSL_TAG r) (rec_type r)
                      (printf_prec_s (VSL_LEN r - 1) (VSL_CDATA r))]\<rparr>)"
  using assms
  by (simp add: dispatch_record_def reaches_classification_def Let_def
      rec_legend_def rec_skip_def)

subsection \<open>What a record changes\<close>

lemma int_incr_in_range: "is_int x \<Longrightarrow> x \<noteq> INT_MAX \<Longrightarrow> int_incr x = x + 1"
  by (simp add: is_int_def INT_MIN_def INT_MAX_def int_incr_def)

lemma int_incr_INT_MAX: "int_incr INT_MAX = INT_MIN"
  by (simp add: INT_MIN_def INT_MAX_def int_incr_def)

lemma skip_below_INT_MAX:
  assumes "classify ext p le r = SKIP" and "skip_max p \<noteq> LE_ANY" and "is_int (skip_max p)"
  shows "skip_cnt le \<noteq> INT_MAX"
  using assms by (auto simp add: classify_def rec_skip_def Let_def is_int_def split: if_splits)

text \<open>
  C6 (as amended). For every record that is judged against the active test:
  \<open>vxid_last\<close> and \<open>tag_last\<close> become the record's vxid and tag when the record
  matches, and keep their values on a skip and on a failure; \<open>skip_cnt\<close> becomes zero
  on a match (when the cursor advances), is unchanged on a failure, and on a skip
  grows by one from every value of an \<open>int\<close> but \<open>INT_MAX\<close>, a value that it does
  not have at a skip against a test whose \<open>skip_max\<close> is a number.
\<close>

theorem match_state_effects:
  assumes "reaches_classification ext r" and "test le = Some i"
    and "is_int (skip_cnt le)"
  shows "\<exists>x le'. dispatch_record ext r le = Inr (x, le') \<and>
     (case classify ext (tests le ! i) le r of
        MATCH \<Rightarrow> vxid_last le' = VSL_ID r \<and> tag_last le' = VSL_TAG r \<and> skip_cnt le' = 0
                 \<and> test le' = (if Suc i < length (tests le) then Some (Suc i) else None)
      | SKIP \<Rightarrow> vxid_last le' = vxid_last le \<and> tag_last le' = tag_last le
                 \<and> test le' = test le
                 \<and> (skip_cnt le \<noteq> INT_MAX \<longrightarrow> skip_cnt le' = skip_cnt le + 1)
                 \<and> (skip_max (tests le ! i) \<noteq> LE_ANY \<and> is_int (skip_max (tests le ! i))
                      \<longrightarrow> skip_cnt le \<noteq> INT_MAX)
      | FAIL \<Rightarrow> vxid_last le' = vxid_last le \<and> tag_last le' = tag_last le
                 \<and> skip_cnt le' = skip_cnt le \<and> test le' = test le)"
proof (cases "classify ext (tests le ! i) le r")
  case MATCH
  then have ok: "rec_ok ext (tests le ! i) le r"
    by (simp add: classify_MATCH)
  show ?thesis
    using MATCH assms
    by (simp add: dispatch_record_ok [OF assms(1,2) ok] Let_def logexp_next_fields
        logexp_next_test)
next
  case SKIP
  then have h: "\<not> rec_ok ext (tests le ! i) le r"
      "skip_max (tests le ! i) = LE_ANY \<or> skip_cnt le < skip_max (tests le ! i)"
    by (simp_all add: classify_SKIP)
  have n: "skip_cnt le \<noteq> INT_MAX"
    if "skip_max (tests le ! i) \<noteq> LE_ANY \<and> is_int (skip_max (tests le ! i))"
    using that skip_below_INT_MAX [OF SKIP] by simp
  show ?thesis
    using SKIP assms n int_incr_in_range [OF assms(3)]
    by (simp add: dispatch_record_skip [OF assms(1,2) h])
next
  case FAIL
  then have h: "\<not> rec_ok ext (tests le ! i) le r"
      "\<not> (skip_max (tests le ! i) = LE_ANY \<or> skip_cnt le < skip_max (tests le ! i))"
    by (simp_all add: classify_FAIL)
  show ?thesis
    using FAIL assms by (simp add: dispatch_record_err [OF assms(1,2) h])
qed

theorem match_state_effects_witness:
  "reaches_classification ex_ext (ex_rec 21 5 ''a'')
   \<and> test (ex_running [ex_test 3 LE_ANY 20 None] 0 1) = Some 0
   \<and> is_int (skip_cnt (ex_running [ex_test 3 LE_ANY 20 None] 0 1))
   \<and> classify ex_ext (ex_test 3 LE_ANY 20 None) (ex_running [ex_test 3 LE_ANY 20 None] 0 1)
        (ex_rec 21 5 ''a'') = SKIP
   \<and> (\<exists>x le'. dispatch_record ex_ext (ex_rec 21 5 ''a'')
          (ex_running [ex_test 3 LE_ANY 20 None] 0 1) = Inr (x, le')
        \<and> vxid_last le' = - 1 \<and> tag_last le' = - 1 \<and> skip_cnt le' = 2 \<and> test le' = Some 0)"
proof -
  let ?le = "ex_running [ex_test 3 LE_ANY 20 None] 0 1"
  have a: "reaches_classification ex_ext (ex_rec 21 5 ''a'')"
    by (simp add: reaches_classification_def ex_ext_def ex_rec_def)
  have b: "test ?le = Some 0"
    by (simp add: ex_running_def)
  have i: "is_int (skip_cnt ?le)" and m: "skip_cnt ?le \<noteq> INT_MAX"
    by (simp_all add: ex_running_def is_int_def INT_MIN_def INT_MAX_def)
  have p: "tests ?le ! 0 = ex_test 3 LE_ANY 20 None"
    by (simp add: ex_running_def ex_le_def)
  have c: "classify ex_ext (ex_test 3 LE_ANY 20 None) ?le (ex_rec 21 5 ''a'') = SKIP"
    by (simp add: classify_def rec_ok_def rec_skip_def ex_running_def ex_le_def ex_test_def
        ex_rec_def LE_ANY_def LE_LAST_def Let_def)
  from match_state_effects [OF a b i] show ?thesis
    unfolding p using a b i m c by (auto simp add: ex_running_def ex_le_def)
qed

text \<open>The claim as it was stated fails at \<open>INT_MAX\<close>: against a test with
  \<open>skip_max = LE_ANY\<close> a record that is not ok is a skip, and the counter does not
  become \<open>INT_MAX + 1\<close>.\<close>

theorem match_state_effects_counterexample:
  "reaches_classification ex_ext (ex_rec 21 5 ''a'')
   \<and> test (ex_running [ex_test LE_ANY LE_ANY 20 None] 0 2147483647) = Some 0
   \<and> classify ex_ext (ex_test LE_ANY LE_ANY 20 None)
        (ex_running [ex_test LE_ANY LE_ANY 20 None] 0 2147483647) (ex_rec 21 5 ''a'') = SKIP
   \<and> dispatch_record ex_ext (ex_rec 21 5 ''a'')
        (ex_running [ex_test LE_ANY LE_ANY 20 None] 0 2147483647)
      = Inr (None, ex_running [ex_test LE_ANY LE_ANY 20 None] 0 (- 2147483648))
   \<and> skip_cnt (ex_running [ex_test LE_ANY LE_ANY 20 None] 0 (- 2147483648))
      \<noteq> skip_cnt (ex_running [ex_test LE_ANY LE_ANY 20 None] 0 2147483647) + 1"
  by (simp add: reaches_classification_def classify_def dispatch_record_def int_incr_def
      rec_ok_def rec_vre_calls_def rec_skip_def rec_legend_def rec_type_def
      ex_ext_def ex_rec_def ex_test_def ex_le_def ex_running_def
      LE_ANY_def LE_LAST_def Let_def)

subsection \<open>The loops over records and transactions\<close>

lemma dispatch_record_summary:
  assumes t: "test le = Some i" and b: "i < length (tests le)"
  obtains
    (filtered) "\<not> reaches_classification ext r" "dispatch_record ext r le = Inr (None, le)"
  | (match_more) le' where "reaches_classification ext r"
      "classify ext (tests le ! i) le r = MATCH"
      "dispatch_record ext r le = Inr (None, le')"
      "test le' = Some (Suc i)" "Suc i < length (tests le)" "tests le' = tests le"
      "vxid_last le' = VSL_ID r" "tag_last le' = VSL_TAG r" "skip_cnt le' = 0"
  | (match_end) le' where "reaches_classification ext r"
      "classify ext (tests le ! i) le r = MATCH"
      "dispatch_record ext r le = Inr (Some 1, le')"
      "test le' = None" "Suc i = length (tests le)" "tests le' = tests le"
  | (skip) le' where "reaches_classification ext r"
      "classify ext (tests le ! i) le r = SKIP"
      "dispatch_record ext r le = Inr (None, le')"
      "test le' = Some i" "tests le' = tests le" "skip_cnt le' = int_incr (skip_cnt le)"
      "vxid_last le' = vxid_last le" "tag_last le' = tag_last le"
  | (fail) le' where "reaches_classification ext r"
      "classify ext (tests le ! i) le r = FAIL"
      "dispatch_record ext r le = Inr (Some 2, le')"
      "test le' = Some i" "tests le' = tests le"
proof (cases "reaches_classification ext r")
  case False
  then show ?thesis using filtered dispatch_record_filtered [OF False t] by blast
next
  case rc: True
  show ?thesis
  proof (cases "classify ext (tests le ! i) le r")
    case MATCH
    then have ok: "rec_ok ext (tests le ! i) le r" by (simp add: classify_MATCH)
    define le3 where "le3 = logexp_next (le\<lparr>calls := calls le @ rec_vre_calls (tests le ! i) r @
                   [Log_rec ''match'' (VSL_ID r) (VSL_TAG r) (rec_type r)
                      (printf_prec_s (VSL_LEN r - 1) (VSL_CDATA r))],
                 vxid_last := VSL_ID r, tag_last := VSL_TAG r, skip_cnt := 0\<rparr>)"
    have eq: "dispatch_record ext r le = Inr (if test le3 = None then Some 1 else None, le3)"
      using dispatch_record_ok [OF rc t ok] by (simp add: le3_def Let_def)
    have t3: "test le3 = (if Suc i < length (tests le) then Some (Suc i) else None)"
      and ts3: "tests le3 = tests le"
      and l3: "vxid_last le3 = VSL_ID r" "tag_last le3 = VSL_TAG r" "skip_cnt le3 = 0"
      using t by (simp_all add: le3_def logexp_next_test logexp_next_fields)
    show ?thesis
    proof (cases "Suc i < length (tests le)")
      case True
      show ?thesis
        by (rule match_more [of le3, OF rc MATCH _ _ True ts3 l3])
           (use True in \<open>simp_all add: eq t3\<close>)
    next
      case False
      with b have e: "Suc i = length (tests le)" by simp
      show ?thesis
        by (rule match_end [of le3, OF rc MATCH _ _ e ts3]) (use False in \<open>simp_all add: eq t3\<close>)
    qed
  next
    case SKIP
    then have h: "\<not> rec_ok ext (tests le ! i) le r"
      "skip_max (tests le ! i) = LE_ANY \<or> skip_cnt le < skip_max (tests le ! i)"
      by (simp_all add: classify_SKIP)
    show ?thesis
      by (rule skip [OF rc SKIP dispatch_record_skip [OF rc t h]]) (use t in simp_all)
  next
    case FAIL
    then have h: "\<not> rec_ok ext (tests le ! i) le r"
      "\<not> (skip_max (tests le ! i) = LE_ANY \<or> skip_cnt le < skip_max (tests le ! i))"
      by (simp_all add: classify_FAIL)
    show ?thesis
      by (rule fail [OF rc FAIL dispatch_record_err [OF rc t h]]) (use t in simp_all)
  qed
qed


lemma dispatch_cursor_summary:
  assumes "test le = Some i" and "i < length (tests le)"
  shows "\<exists>x le'. dispatch_cursor ext rs le = Inr (x, le')
     \<and> tests le' = tests le \<and> cursor_ok le'
     \<and> (x = None \<or> x = Some 1 \<or> x = Some 2)
     \<and> (x = Some 1 \<longleftrightarrow> test le' = None)
     \<and> (x = Some 2 \<longleftrightarrow> FAIL \<in> set (classes ext rs le))
     \<and> (x = Some 1 \<longrightarrow> classes ext rs le \<noteq> [] \<and> last (classes ext rs le) = MATCH)
     \<and> (x = Some 2 \<longrightarrow> last (classes ext rs le) = FAIL)
     \<and> count_list (classes ext rs le) MATCH + remaining le' = remaining le
     \<and> (x = None \<longrightarrow>
          length (classes ext rs le) = length (filter (reaches_classification ext) rs))"
  using assms
proof (induction rs arbitrary: le i)
  case Nil
  then show ?case by (simp add: cursor_ok_def)
next
  case (Cons r rs)
  note t = \<open>test le = Some i\<close> and b = \<open>i < length (tests le)\<close>
  from t b show ?case
  proof (cases rule: dispatch_record_summary [where ext = ext and r = r])
    case filtered
    from Cons.IH [OF t b] filtered t show ?thesis
      by simp
  next
    case (match_more le')
    from Cons.IH [OF match_more(4)] match_more t b
    obtain x le'' where h: "dispatch_cursor ext rs le' = Inr (x, le'')"
      "tests le'' = tests le'" "cursor_ok le''" "x = None \<or> x = Some 1 \<or> x = Some 2"
      "x = Some 1 \<longleftrightarrow> test le'' = None"
      "x = Some 2 \<longleftrightarrow> FAIL \<in> set (classes ext rs le')"
      "x = Some 1 \<longrightarrow> classes ext rs le' \<noteq> [] \<and> last (classes ext rs le') = MATCH"
      "x = Some 2 \<longrightarrow> last (classes ext rs le') = FAIL"
      "count_list (classes ext rs le') MATCH + remaining le'' = remaining le'"
      "x = None \<longrightarrow>
          length (classes ext rs le') = length (filter (reaches_classification ext) rs)"
      by auto
    have c: "classes ext (r # rs) le = MATCH # classes ext rs le'"
      using match_more t by (cases x) simp_all
    have d: "dispatch_cursor ext (r # rs) le = Inr (x, le'')"
      using match_more h(1) by simp
    have rem: "remaining le = Suc (remaining le')"
      using match_more t b by (simp add: remaining_def)
    have ne: "x = Some 2 \<Longrightarrow> classes ext rs le' \<noteq> []"
      using h(6) by auto
    show ?thesis
      unfolding c d using h match_more ne rem by auto
  next
    case (match_end le')
    have c: "classes ext (r # rs) le = [MATCH]"
      using match_end t by simp
    have d: "dispatch_cursor ext (r # rs) le = Inr (Some 1, le')"
      using match_end by simp
    show ?thesis
      unfolding c d using match_end t b by (simp add: cursor_ok_def remaining_def)
  next
    case (skip le')
    from skip b have b': "i < length (tests le')" by simp
    from Cons.IH [OF skip(4) b']
    obtain x le'' where h: "dispatch_cursor ext rs le' = Inr (x, le'')"
      "tests le'' = tests le'" "cursor_ok le''" "x = None \<or> x = Some 1 \<or> x = Some 2"
      "x = Some 1 \<longleftrightarrow> test le'' = None"
      "x = Some 2 \<longleftrightarrow> FAIL \<in> set (classes ext rs le')"
      "x = Some 1 \<longrightarrow> classes ext rs le' \<noteq> [] \<and> last (classes ext rs le') = MATCH"
      "x = Some 2 \<longrightarrow> last (classes ext rs le') = FAIL"
      "count_list (classes ext rs le') MATCH + remaining le'' = remaining le'"
      "x = None \<longrightarrow>
          length (classes ext rs le') = length (filter (reaches_classification ext) rs)"
      by auto
    have c: "classes ext (r # rs) le = SKIP # classes ext rs le'"
      using skip t by simp
    have d: "dispatch_cursor ext (r # rs) le = Inr (x, le'')"
      using skip h(1) by simp
    have rem: "remaining le = remaining le'"
      using skip t by (simp add: remaining_def)
    have ne: "x = Some 2 \<Longrightarrow> classes ext rs le' \<noteq> []"
      using h(6) by auto
    show ?thesis
      unfolding c d using h skip ne rem by auto
  next
    case (fail le')
    have c: "classes ext (r # rs) le = [FAIL]"
      using fail t by simp
    have d: "dispatch_cursor ext (r # rs) le = Inr (Some 2, le')"
      using fail by simp
    show ?thesis
      unfolding c d using fail t b by (simp add: cursor_ok_def remaining_def)
  qed
qed


lemma dispatch_cursor_append:
  "dispatch_cursor ext (a @ b) le =
     (case dispatch_cursor ext a le of
        Inl e \<Rightarrow> Inl e
      | Inr (Some c, le') \<Rightarrow> Inr (Some c, le')
      | Inr (None, le') \<Rightarrow> dispatch_cursor ext b le')"
  by (induction a arbitrary: le) (auto split: sum.splits option.splits)

lemma logexp_dispatch_concat:
  "logexp_dispatch ext pt le =
     (case dispatch_cursor ext (concat pt) le of
        Inl e \<Rightarrow> Inl e
      | Inr (Some c, le') \<Rightarrow> Inr (c, le')
      | Inr (None, le') \<Rightarrow> Inr (0, le'))"
  by (induction pt arbitrary: le)
     (auto simp add: dispatch_cursor_append split: sum.splits option.splits)

lemma dispatch_cursor_returns_at:
  "dispatch_cursor ext rs le = Inr (Some c, le') \<Longrightarrow>
     \<exists>rs1 r rs2 le1. rs = rs1 @ r # rs2 \<and> dispatch_cursor ext rs1 le = Inr (None, le1)
        \<and> dispatch_record ext r le1 = Inr (Some c, le')"
proof (induction rs arbitrary: le)
  case Nil
  then show ?case by simp
next
  case (Cons r rs)
  show ?case
  proof (cases "dispatch_record ext r le")
    case (Inl a)
    with Cons.prems show ?thesis by simp
  next
    case (Inr z)
    obtain x l where z: "z = (x, l)" by (cases z)
    show ?thesis
    proof (cases x)
      case None
      with Cons.prems Inr z have "dispatch_cursor ext rs l = Inr (Some c, le')" by simp
      from Cons.IH [OF this] obtain rs1 r' rs2 le1 where
        h: "rs = rs1 @ r' # rs2" "dispatch_cursor ext rs1 l = Inr (None, le1)"
           "dispatch_record ext r' le1 = Inr (Some c, le')" by blast
      have "r # rs = (r # rs1) @ r' # rs2" using h(1) by simp
      moreover have "dispatch_cursor ext (r # rs1) le = Inr (None, le1)"
        using Inr z None h(2) by simp
      ultimately show ?thesis using h(3) by blast
    next
      case (Some c')
      with Cons.prems Inr z have "c' = c" "l = le'" by simp_all
      then have "r # rs = [] @ r # rs" "dispatch_cursor ext [] le = Inr (None, le)"
        "dispatch_record ext r le = Inr (Some c, le')"
        using Inr z Some by simp_all
      then show ?thesis by blast
    qed
  qed
qed

lemma dispatch_cursor_prefix_returns:
  "dispatch_cursor ext rs1 le = Inr (Some c, le') \<Longrightarrow>
     dispatch_cursor ext (rs1 @ rs2) le = Inr (Some c, le')"
  by (simp add: dispatch_cursor_append)

lemmas ex_defs = ex_ext_def ex_rec_def ex_test_def ex_le_def ex_running_def
  LE_ANY_def LE_LAST_def

lemmas dispatch_defs = dispatch_record_def int_incr_def rec_ok_def rec_vre_calls_def rec_skip_def
  rec_legend_def rec_type_def printf_prec_s_def logexp_next_def Let_def

text \<open>
  C5. A call of \<open>logexp_dispatch\<close> with an active test returns 0, 1 or 2: 0 when all
  records of the call were gone through and the run is still open (no failure, every
  record that reaches the classification was classified); 1 exactly when the cursor is
  exhausted, which a match did; 2 exactly when a record was classified as a failure.
  When it returns 1 or 2 it does so at one record: whatever records follow that one in
  the call, the returned code and the state are the same.
\<close>

theorem dispatch_return_code:
  assumes "test le = Some i" and "i < length (tests le)"
  shows "\<exists>c le'. logexp_dispatch ext pt le = Inr (c, le')
     \<and> (c = 0 \<or> c = 1 \<or> c = 2)
     \<and> (c = 0 \<longrightarrow> test le' \<noteq> None \<and> FAIL \<notin> set (classes ext (concat pt) le)
          \<and> length (classes ext (concat pt) le)
              = length (filter (reaches_classification ext) (concat pt)))
     \<and> (c = 1 \<longleftrightarrow> test le' = None)
     \<and> (c = 1 \<longrightarrow> classes ext (concat pt) le \<noteq> [] \<and> last (classes ext (concat pt) le) = MATCH)
     \<and> (c = 2 \<longleftrightarrow> FAIL \<in> set (classes ext (concat pt) le))
     \<and> (c \<noteq> 0 \<longrightarrow>
          (\<exists>rs1 r rs2. concat pt = rs1 @ r # rs2
             \<and> (\<forall>rs'. logexp_dispatch ext [rs1 @ r # rs'] le = Inr (c, le'))))"
proof -
  from dispatch_cursor_summary [OF assms, of ext "concat pt"]
  obtain x le' where h: "dispatch_cursor ext (concat pt) le = Inr (x, le')"
      "x = None \<or> x = Some 1 \<or> x = Some 2"
      "x = Some 1 \<longleftrightarrow> test le' = None"
      "x = Some 2 \<longleftrightarrow> FAIL \<in> set (classes ext (concat pt) le)"
      "x = Some 1 \<longrightarrow> classes ext (concat pt) le \<noteq> [] \<and> last (classes ext (concat pt) le) = MATCH"
      "x = None \<longrightarrow> length (classes ext (concat pt) le)
              = length (filter (reaches_classification ext) (concat pt))"
    by auto
  define c where "c = (case x of None \<Rightarrow> 0 | Some k \<Rightarrow> k)"
  have d: "logexp_dispatch ext pt le = Inr (c, le')"
    using h(1) by (simp add: logexp_dispatch_concat c_def split: option.splits)
  have cx: "(c = 0 \<longleftrightarrow> x = None) \<and> (c = 1 \<longleftrightarrow> x = Some 1) \<and> (c = 2 \<longleftrightarrow> x = Some 2)"
    using h(2) by (auto simp add: c_def)
  have stop: "\<exists>rs1 r rs2. concat pt = rs1 @ r # rs2
             \<and> (\<forall>rs'. logexp_dispatch ext [rs1 @ r # rs'] le = Inr (c, le'))" if "c \<noteq> 0"
  proof -
    from that cx h(2) have xc: "x = Some c" by (auto simp add: c_def)
    from dispatch_cursor_returns_at [OF h(1) [unfolded xc]]
    obtain rs1 r rs2 le1 where s: "concat pt = rs1 @ r # rs2"
        "dispatch_cursor ext rs1 le = Inr (None, le1)"
        "dispatch_record ext r le1 = Inr (Some c, le')" by blast
    have "logexp_dispatch ext [rs1 @ r # rs'] le = Inr (c, le')" for rs'
      using s(2,3) by (simp add: dispatch_cursor_append)
    with s(1) show ?thesis by blast
  qed
  show ?thesis
    using d cx h stop by (intro exI [of _ c] exI [of _ le']) auto
qed


theorem dispatch_return_code_witness:
  "test (ex_running [ex_test 2 LE_ANY 20 None] 0 0) = Some 0
   \<and> 0 < length (tests (ex_running [ex_test 2 LE_ANY 20 None] 0 0))
   \<and> (\<exists>le'. logexp_dispatch ex_ext
          [[ex_rec 21 5 ''a''], [ex_rec 21 5 ''b'', ex_rec 20 5 ''c'', ex_rec 21 6 ''d'']]
          (ex_running [ex_test 2 LE_ANY 20 None] 0 0) = Inr (1, le')
        \<and> test le' = None
        \<and> length (filter (\<lambda>c. case c of Log_rec l x t s d \<Rightarrow> True | _ \<Rightarrow> False) (calls le')) = 1)"
proof -
  let ?le = "ex_running [ex_test 2 LE_ANY 20 None] 0 0"
  let ?pt = "[[ex_rec 21 5 ''a''], [ex_rec 21 5 ''b'', ex_rec 20 5 ''c'', ex_rec 21 6 ''d'']]"
  have a: "test ?le = Some 0" by (simp add: ex_defs)
  have b: "0 < length (tests ?le)" by (simp add: ex_defs)
  have e: "logexp_dispatch ex_ext ?pt ?le =
      Inr (1, ?le\<lparr>calls := [Log_rec ''match'' 5 20 CHR ''c'' ''c''], test := None,
                    skip_cnt := 0, vxid_last := 5, tag_last := 20\<rparr>)"
    by (simp add: ex_defs dispatch_defs)
  from dispatch_return_code [OF a b, of ex_ext ?pt] a b e show ?thesis
    by (simp add: ex_defs)
qed


subsection \<open>The run of the thread\<close>

lemma remaining_zero: "cursor_ok le \<Longrightarrow> remaining le = 0 \<longleftrightarrow> test le = None"
  by (auto simp add: cursor_ok_def remaining_def split: option.splits)

lemma thread_loop_summary:
  assumes "cursor_ok le"
  shows "\<exists>x le'. thread_loop ext src le = (x, le')
     \<and> tests le' = tests le \<and> cursor_ok le'
     \<and> x \<noteq> Thread_aborted
     \<and> (x = Thread_returned \<longleftrightarrow> test le' = None)
     \<and> (FAIL \<in> set (thread_classes ext src le) \<longrightarrow> x = Thread_fatal F_expectation_failed)
     \<and> (x = Thread_returned \<and> test le \<noteq> None \<longrightarrow>
          thread_classes ext src le \<noteq> [] \<and> last (thread_classes ext src le) = MATCH)
     \<and> count_list (thread_classes ext src le) MATCH + remaining le' = remaining le"
  using assms
proof (induction src arbitrary: le)
  case Nil
  then show ?case by (simp split: option.splits)
next
  case (Cons b src)
  show ?case
  proof (cases "test le")
    case None
    then show ?thesis using Cons.prems by simp
  next
    case (Some i)
    with Cons.prems have bnd: "i < length (tests le)" by (simp add: cursor_ok_def)
    let ?cls = "classes ext (concat (fst b)) le"
    from dispatch_cursor_summary [OF Some bnd, of ext "concat (fst b)"]
    obtain x le1 where h: "dispatch_cursor ext (concat (fst b)) le = Inr (x, le1)"
      "tests le1 = tests le" "cursor_ok le1"
      "x = None \<or> x = Some 1 \<or> x = Some 2"
      "x = Some 1 \<longleftrightarrow> test le1 = None"
      "x = Some 2 \<longleftrightarrow> FAIL \<in> set ?cls"
      "x = Some 1 \<longrightarrow> ?cls \<noteq> [] \<and> last ?cls = MATCH"
      "count_list ?cls MATCH + remaining le1 = remaining le"
      by auto
    define i' where "i' = (case x of None \<Rightarrow> snd b | Some c \<Rightarrow> c)"
    have v: "VSLQ_Dispatch ext b le = Inr (i', le1)"
      using h(1,4) by (auto simp add: VSLQ_Dispatch_def logexp_dispatch_concat i'_def)
    show ?thesis
    proof (cases "i' = 2 \<or> i' < 0")
      case True
      then have x1: "x \<noteq> Some 1" by (auto simp add: i'_def)
      have tc: "thread_classes ext (b # src) le = ?cls"
        using Some v True by simp
      have "\<exists>f. thread_loop ext (b # src) le = (Thread_fatal f, le1\<lparr>calls := calls le1 @ [Log_fatal f]\<rparr>)
          \<and> (i' = 2 \<longrightarrow> f = F_expectation_failed)"
        using Some v True by auto
      then obtain f where tl: "thread_loop ext (b # src) le =
            (Thread_fatal f, le1\<lparr>calls := calls le1 @ [Log_fatal f]\<rparr>)"
          "i' = 2 \<longrightarrow> f = F_expectation_failed" by blast
      have "FAIL \<in> set ?cls \<Longrightarrow> i' = 2" using h(6) by (auto simp add: i'_def)
      then show ?thesis
        unfolding tc tl(1) using tl(2) h x1 by (auto simp add: cursor_ok_def remaining_def)
    next
      case False
      then have x2: "x \<noteq> Some 2" by (auto simp add: i'_def)
      with h(6) have nf: "FAIL \<notin> set ?cls" by simp
      have tl: "thread_loop ext (b # src) le = thread_loop ext src le1"
        using Some v False by simp
      have tc: "thread_classes ext (b # src) le = ?cls @ thread_classes ext src le1"
        using Some v False by simp
      from Cons.IH [OF h(3)] obtain y le2 where k: "thread_loop ext src le1 = (y, le2)"
        "tests le2 = tests le1" "cursor_ok le2" "y \<noteq> Thread_aborted"
        "y = Thread_returned \<longleftrightarrow> test le2 = None"
        "FAIL \<in> set (thread_classes ext src le1) \<longrightarrow> y = Thread_fatal F_expectation_failed"
        "y = Thread_returned \<and> test le1 \<noteq> None \<longrightarrow>
          thread_classes ext src le1 \<noteq> [] \<and> last (thread_classes ext src le1) = MATCH"
        "count_list (thread_classes ext src le1) MATCH + remaining le2 = remaining le1"
        by auto
      have e: "test le1 = None \<Longrightarrow> thread_classes ext src le1 = []"
        by (cases src) simp_all
      have l: "y = Thread_returned \<Longrightarrow>
          ?cls @ thread_classes ext src le1 \<noteq> [] \<and> last (?cls @ thread_classes ext src le1) = MATCH"
      proof (cases "test le1")
        case None
        then show ?thesis using e h(5,7) by simp
      next
        case (Some j)
        assume "y = Thread_returned"
        with k(7) Some show ?thesis by simp
      qed
      show ?thesis
        unfolding tc tl k(1) using k h(2,8) nf l by auto
    qed
  qed
qed


lemma thread_entry_fields:
  "tests (thread_entry le) = tests le"
  "vxid_last (thread_entry le) = vxid_last le"
  "tag_last (thread_entry le) = tag_last le"
  "skip_cnt (thread_entry le) = skip_cnt le"
  by (simp_all add: thread_entry_def Let_def logexp_next_fields split: option.splits)

lemma thread_entry_test:
  "test le = None \<Longrightarrow> test (thread_entry le) = (if tests le = [] then None else Some 0)"
  by (simp add: thread_entry_def Let_def logexp_next_test split: option.splits)

lemma thread_entry_measures:
  assumes "test le = None"
  shows "cursor_ok (thread_entry le)" and "remaining (thread_entry le) = length (tests le)"
  using thread_entry_test [OF assms]
  by (simp_all add: cursor_ok_def remaining_def thread_entry_fields)

lemma thread_classes_no_test: "test le = None \<Longrightarrow> thread_classes ext src le = []"
  by (cases src) simp_all

lemma logexp_thread_exit:
  assumes "run le" "vslq le" "test le = None"
  shows "fst (logexp_thread ext src le) = fst (thread_loop ext src (thread_entry le))"
  using assms by (simp add: logexp_thread_def split: prod.splits thread_exit.splits)

lemmas thread_defs = logexp_thread_def thread_entry_def VSLQ_Dispatch_def logexp_start_def
  start_reset_def classify_def reaches_classification_def

text \<open>
  C1. For every list of tests and everything the log source delivers, the thread that
  \<open>logexp_start\<close> created returns (the run succeeds) exactly when every record it
  classified is a match or a skip and the matches exhaust the list of tests: there are
  as many matches as tests and, when the list is not empty, the last classification is
  a match. For the empty list the run succeeds with no classification at all.
\<close>

theorem run_succeeds_iff:
  assumes "run le" and "vslq le" and "test le = None"
  shows "fst (logexp_thread ext src le) = Thread_returned \<longleftrightarrow>
     (\<forall>c \<in> set (thread_classes ext src (thread_entry le)). c = MATCH \<or> c = SKIP)
     \<and> count_list (thread_classes ext src (thread_entry le)) MATCH = length (tests le)
     \<and> (tests le \<noteq> [] \<longrightarrow>
          thread_classes ext src (thread_entry le) \<noteq> []
          \<and> last (thread_classes ext src (thread_entry le)) = MATCH)"
proof -
  let ?e = "thread_entry le"
  let ?cls = "thread_classes ext src ?e"
  note m = thread_entry_measures [OF assms(3)]
  from thread_loop_summary [OF m(1), of ext src]
  obtain x le' where h: "thread_loop ext src ?e = (x, le')" "cursor_ok le'"
    "x = Thread_returned \<longleftrightarrow> test le' = None"
    "FAIL \<in> set ?cls \<longrightarrow> x = Thread_fatal F_expectation_failed"
    "x = Thread_returned \<and> test ?e \<noteq> None \<longrightarrow> ?cls \<noteq> [] \<and> last ?cls = MATCH"
    "count_list ?cls MATCH + remaining le' = remaining ?e"
    by auto
  have ex: "fst (logexp_thread ext src le) = x"
    using logexp_thread_exit [OF assms, of ext src] h(1) by simp
  have nf: "(\<forall>c \<in> set ?cls. c = MATCH \<or> c = SKIP) \<longleftrightarrow> FAIL \<notin> set ?cls"
  proof
    assume "\<forall>c \<in> set ?cls. c = MATCH \<or> c = SKIP"
    then show "FAIL \<notin> set ?cls" by auto
  next
    assume n: "FAIL \<notin> set ?cls"
    show "\<forall>c \<in> set ?cls. c = MATCH \<or> c = SKIP"
    proof
      fix c assume "c \<in> set ?cls"
      with n show "c = MATCH \<or> c = SKIP" by (cases c) auto
    qed
  qed
  have te: "tests le \<noteq> [] \<Longrightarrow> test ?e \<noteq> None"
    using thread_entry_test [OF assms(3)] by simp
  show ?thesis
  proof
    assume "fst (logexp_thread ext src le) = Thread_returned"
    with ex have r: "x = Thread_returned" by simp
    with h(3) have "test le' = None" by simp
    then have "remaining le' = 0" by (simp add: remaining_def)
    with h(6) m(2) have c: "count_list ?cls MATCH = length (tests le)" by simp
    from r h(4) have "FAIL \<notin> set ?cls" by auto
    with nf c r h(5) te
    show "(\<forall>c \<in> set ?cls. c = MATCH \<or> c = SKIP)
       \<and> count_list ?cls MATCH = length (tests le)
       \<and> (tests le \<noteq> [] \<longrightarrow> ?cls \<noteq> [] \<and> last ?cls = MATCH)"
      by blast
  next
    assume "(\<forall>c \<in> set ?cls. c = MATCH \<or> c = SKIP)
       \<and> count_list ?cls MATCH = length (tests le)
       \<and> (tests le \<noteq> [] \<longrightarrow> ?cls \<noteq> [] \<and> last ?cls = MATCH)"
    then have "count_list ?cls MATCH = length (tests le)" by simp
    with h(6) m(2) have "remaining le' = 0" by simp
    with remaining_zero [OF h(2)] h(3) ex
    show "fst (logexp_thread ext src le) = Thread_returned" by simp
  qed
qed


theorem run_succeeds_iff_witness:
  "run (snd (logexp_start ex_ext
          ((ex_le [ex_test 0 LE_ANY 10 None, ex_test 0 LE_LAST 11 None])\<lparr>n_arg := Some ''v1''\<rparr>)))
   \<and> vslq (snd (logexp_start ex_ext
          ((ex_le [ex_test 0 LE_ANY 10 None, ex_test 0 LE_LAST 11 None])\<lparr>n_arg := Some ''v1''\<rparr>)))
   \<and> test (snd (logexp_start ex_ext
          ((ex_le [ex_test 0 LE_ANY 10 None, ex_test 0 LE_LAST 11 None])\<lparr>n_arg := Some ''v1''\<rparr>))) = None
   \<and> fst (logexp_thread ex_ext [([[ex_rec 10 5 ''a'']], 1), ([[ex_rec 11 5 ''b'']], 1)]
        (snd (logexp_start ex_ext
          ((ex_le [ex_test 0 LE_ANY 10 None, ex_test 0 LE_LAST 11 None])\<lparr>n_arg := Some ''v1''\<rparr>))))
       = Thread_returned
   \<and> fst (logexp_thread ex_ext [([[ex_rec 10 5 ''a'']], 1), ([[ex_rec 11 6 ''b'']], 1)]
        (snd (logexp_start ex_ext
          ((ex_le [ex_test 0 LE_ANY 10 None, ex_test 0 LE_LAST 11 None])\<lparr>n_arg := Some ''v1''\<rparr>))))
       \<noteq> Thread_returned"
proof -
  let ?le = "snd (logexp_start ex_ext
          ((ex_le [ex_test 0 LE_ANY 10 None, ex_test 0 LE_LAST 11 None])\<lparr>n_arg := Some ''v1''\<rparr>))"
  let ?a = "[([[ex_rec 10 5 ''a'']], 1), ([[ex_rec 11 5 ''b'']], 1)]"
  let ?b = "[([[ex_rec 10 5 ''a'']], 1), ([[ex_rec 11 6 ''b'']], 1)]"
  have r: "run ?le" and q: "vslq ?le" and t: "test ?le = None"
    by (simp_all add: ex_defs thread_defs Let_def)
  have ca: "thread_classes ex_ext ?a (thread_entry ?le) = [MATCH, MATCH]"
    by (simp add: ex_defs thread_defs dispatch_defs)
  have cb: "thread_classes ex_ext ?b (thread_entry ?le) = [MATCH, FAIL]"
    by (simp add: ex_defs thread_defs dispatch_defs)
  have ts: "tests ?le = [ex_test 0 LE_ANY 10 None, ex_test 0 LE_LAST 11 None]"
    by (simp add: ex_defs thread_defs Let_def)
  from run_succeeds_iff [OF r q t, of ex_ext ?a] run_succeeds_iff [OF r q t, of ex_ext ?b]
  show ?thesis
    unfolding ca cb ts using r q t by simp
qed

text \<open>
  C9. When \<open>logexp_start\<close> has started an engine whose list of tests is empty, the
  thread returns at once: the first \<open>logexp_next\<close> leaves the cursor at \<open>NULL\<close>, no
  record is classified, and whatever the log source delivers, the thread only logs its
  first and last lines (no call of \<open>VRE_exec\<close>, no line for a record).
\<close>

theorem empty_list_succeeds_at_once:
  assumes "logexp_start ext le = (Cmd_done, le1)" and "tests le = []"
  shows "test (thread_entry le1) = None
     \<and> thread_classes ext src (thread_entry le1) = []
     \<and> logexp_thread ext src le1 =
         (Thread_returned,
          le1\<lparr>calls := calls le1 @ [Log_begin]
                 @ (case query le of None \<Rightarrow> [] | Some q \<Rightarrow> [Log_qry q]) @ [Log_end]\<rparr>)"
proof -
  from assms(1) have s: "run le1" "vslq le1" "test le1 = None" "tests le1 = tests le"
      "query le1 = query le"
    by (auto simp add: logexp_start_def start_reset_def Let_def
        split: if_splits option.splits)
  have t: "test (thread_entry le1) = None"
    using thread_entry_test [OF s(3)] s(4) assms(2) by simp
  have e: "thread_entry le1 =
      le1\<lparr>calls := calls le1 @ [Log_begin]
                 @ (case query le of None \<Rightarrow> [] | Some q \<Rightarrow> [Log_qry q])\<rparr>"
    using s assms(2)
    by (simp add: thread_entry_def logexp_next_def Let_def split: option.splits)
  have l: "thread_loop ext src (thread_entry le1) = (Thread_returned, thread_entry le1)"
    using t by (cases src) simp_all
  have "logexp_thread ext src le1 =
      (Thread_returned, (thread_entry le1)\<lparr>calls := calls (thread_entry le1) @ [Log_end]\<rparr>)"
    using s l by (simp add: logexp_thread_def)
  then show ?thesis
    using t thread_classes_no_test [OF t] by (simp add: e)
qed

theorem empty_list_succeeds_at_once_witness:
  "logexp_start ex_ext ((ex_le [])\<lparr>n_arg := Some ''v1''\<rparr>) =
      (Cmd_done, (ex_le [])\<lparr>n_arg := Some ''v1'', vslq := True, run := True,
           vxid_last := - 1, tag_last := - 1, calls := [Call_pthread_create]\<rparr>)
   \<and> tests ((ex_le [])\<lparr>n_arg := Some ''v1''\<rparr>) = []
   \<and> logexp_thread ex_ext [([[ex_rec 10 5 ''a'']], 1)]
        ((ex_le [])\<lparr>n_arg := Some ''v1'', vslq := True, run := True,
           vxid_last := - 1, tag_last := - 1, calls := [Call_pthread_create]\<rparr>) =
      (Thread_returned, (ex_le [])\<lparr>n_arg := Some ''v1'', vslq := True, run := True,
           vxid_last := - 1, tag_last := - 1,
           calls := [Call_pthread_create, Log_begin, Log_end]\<rparr>)"
proof -
  have a: "logexp_start ex_ext ((ex_le [])\<lparr>n_arg := Some ''v1''\<rparr>) =
      (Cmd_done, (ex_le [])\<lparr>n_arg := Some ''v1'', vslq := True, run := True,
           vxid_last := - 1, tag_last := - 1, calls := [Call_pthread_create]\<rparr>)"
    by (simp add: ex_defs thread_defs Let_def)
  have b: "tests ((ex_le [])\<lparr>n_arg := Some ''v1''\<rparr>) = []"
    by (simp add: ex_defs)
  from empty_list_succeeds_at_once [OF a b, of "[([[ex_rec 10 5 ''a'']], 1)]"] a b
  show ?thesis by (simp add: ex_defs)
qed


subsection \<open>The budget of skips\<close>

lemma rec_ok_cong:
  "vxid_last le' = vxid_last le \<Longrightarrow> tag_last le' = tag_last le \<Longrightarrow>
     rec_ok ext p le' r = rec_ok ext p le r"
  by (simp add: rec_ok_def)

lemma classes_not_ok:
  assumes "test le = Some i"
    and "\<forall>r \<in> set rs. reaches_classification ext r \<and> \<not> rec_ok ext (tests le ! i) le r"
    and "0 \<le> skip_max (tests le ! i)" and "skip_max (tests le ! i) \<le> INT_MAX"
    and "0 \<le> skip_cnt le" and "skip_cnt le \<le> skip_max (tests le ! i)"
  shows "classes ext rs le =
     replicate (min (length rs) (nat (skip_max (tests le ! i) - skip_cnt le))) SKIP
     @ (if nat (skip_max (tests le ! i) - skip_cnt le) < length rs then [FAIL] else [])"
  using assms
proof (induction rs arbitrary: le)
  case Nil
  then show ?case by simp
next
  case (Cons r rs)
  let ?p = "tests le ! i"
  from Cons.prems have rc: "reaches_classification ext r" and nok: "\<not> rec_ok ext ?p le r"
    by simp_all
  have na: "skip_max ?p \<noteq> LE_ANY"
    using Cons.prems(3) by (simp add: LE_ANY_def)
  show ?case
  proof (cases "skip_cnt le < skip_max ?p")
    case True
    have inc: "int_incr (skip_cnt le) = skip_cnt le + 1"
      using True Cons.prems(4,5)
      by (intro int_incr_in_range) (simp_all add: is_int_def INT_MIN_def INT_MAX_def)
    define le' where "le' = le\<lparr>calls := calls le @ rec_vre_calls ?p r,
                    skip_cnt := skip_cnt le + 1\<rparr>"
    have d: "dispatch_record ext r le = Inr (None, le')"
      using dispatch_record_skip [OF rc Cons.prems(1) nok] True by (simp add: le'_def inc)
    have c: "classify ext ?p le r = SKIP"
      using nok True by (simp add: classify_SKIP)
    have f: "test le' = Some i" "tests le' = tests le" "skip_cnt le' = skip_cnt le + 1"
      using Cons.prems(1) by (simp_all add: le'_def)
    have o: "\<forall>r \<in> set rs. reaches_classification ext r \<and> \<not> rec_ok ext (tests le' ! i) le' r"
    proof -
      have "rec_ok ext (tests le ! i) le' q = rec_ok ext (tests le ! i) le q" for q
        by (rule rec_ok_cong) (simp_all add: le'_def)
      with Cons.prems(2) f(2) show ?thesis by simp
    qed
    have ih: "classes ext rs le' =
       replicate (min (length rs) (nat (skip_max ?p - skip_cnt le - 1))) SKIP
       @ (if nat (skip_max ?p - skip_cnt le - 1) < length rs then [FAIL] else [])"
      using Cons.IH [OF f(1) o] Cons.prems(3,4,5) True f
      by (simp add: algebra_simps)
    have n: "nat (skip_max ?p - skip_cnt le) = Suc (nat (skip_max ?p - skip_cnt le - 1))"
      using True by simp
    have "classes ext (r # rs) le = SKIP # classes ext rs le'"
      using d c rc Cons.prems(1) by simp
    then show ?thesis
      unfolding ih n by simp
  next
    case False
    with Cons.prems(6) have z: "skip_max ?p - skip_cnt le = 0" by simp
    have c: "classify ext ?p le r = FAIL"
      using nok False na by (simp add: classify_FAIL)
    obtain cs where d: "dispatch_record ext r le = Inr (Some 2, le\<lparr>calls := cs\<rparr>)"
      using dispatch_record_err [OF rc Cons.prems(1) nok] False na by blast
    have "classes ext (r # rs) le = [FAIL]"
      using d c rc Cons.prems(1) by simp
    then show ?thesis
      using z by simp
  qed
qed

text \<open>
  C2 (as amended). For the active test and records that are not ok: a record is a
  skip exactly when \<open>skip_max\<close> is \<open>LE_ANY\<close> or \<open>skip_cnt < skip_max\<close>, and
  otherwise it is a failure; on a skip \<open>skip_cnt\<close> grows by one from every value of
  an \<open>int\<close> but \<open>INT_MAX\<close>, a value that it does not have at a skip against a test
  whose \<open>skip_max\<close> is a number. So against a test with \<open>skip_max = N\<close> that has
  just become active, a sequence of records that are not ok is classified as at most
  \<open>N\<close> skips, and the record after the \<open>N\<close>-th skip is a failure.
\<close>

theorem skip_budget:
  assumes "test le = Some i"
    and "\<forall>r \<in> set rs. reaches_classification ext r \<and> \<not> rec_ok ext (tests le ! i) le r"
    and "is_int (skip_cnt le)"
  shows "(\<forall>r \<in> set rs.
           (classify ext (tests le ! i) le r = SKIP \<longleftrightarrow>
              skip_max (tests le ! i) = LE_ANY \<or> skip_cnt le < skip_max (tests le ! i))
         \<and> (classify ext (tests le ! i) le r \<noteq> SKIP \<longrightarrow>
              classify ext (tests le ! i) le r = FAIL)
         \<and> (classify ext (tests le ! i) le r = SKIP \<longrightarrow>
              (\<exists>le'. dispatch_record ext r le = Inr (None, le')
                 \<and> (skip_cnt le \<noteq> INT_MAX \<longrightarrow> skip_cnt le' = skip_cnt le + 1))
              \<and> (skip_max (tests le ! i) \<noteq> LE_ANY \<and> is_int (skip_max (tests le ! i))
                   \<longrightarrow> skip_cnt le \<noteq> INT_MAX))
         \<and> (classify ext (tests le ! i) le r = FAIL \<longrightarrow>
              (\<exists>le'. dispatch_record ext r le = Inr (Some 2, le')
                 \<and> skip_cnt le' = skip_cnt le)))
     \<and> (0 \<le> skip_max (tests le ! i) \<and> skip_max (tests le ! i) \<le> INT_MAX
          \<and> skip_cnt le = 0 \<longrightarrow>
          classes ext rs le =
            replicate (min (length rs) (nat (skip_max (tests le ! i)))) SKIP
            @ (if nat (skip_max (tests le ! i)) < length rs then [FAIL] else []))"
proof (intro conjI ballI impI)
  fix r assume "r \<in> set rs"
  with assms(2) have rc: "reaches_classification ext r"
    and nok: "\<not> rec_ok ext (tests le ! i) le r" by simp_all
  show "classify ext (tests le ! i) le r = SKIP \<longleftrightarrow>
      skip_max (tests le ! i) = LE_ANY \<or> skip_cnt le < skip_max (tests le ! i)"
    using nok by (simp add: classify_SKIP)
  show "classify ext (tests le ! i) le r = FAIL" if "classify ext (tests le ! i) le r \<noteq> SKIP"
    using that nok by (cases "classify ext (tests le ! i) le r") (simp_all add: classify_MATCH)
  show "\<exists>le'. dispatch_record ext r le = Inr (None, le')
      \<and> (skip_cnt le \<noteq> INT_MAX \<longrightarrow> skip_cnt le' = skip_cnt le + 1)"
    if "classify ext (tests le ! i) le r = SKIP"
    using that dispatch_record_skip [OF rc assms(1) nok] int_incr_in_range [OF assms(3)]
    by (simp add: classify_SKIP)
  show "skip_cnt le \<noteq> INT_MAX"
    if "classify ext (tests le ! i) le r = SKIP"
      and "skip_max (tests le ! i) \<noteq> LE_ANY \<and> is_int (skip_max (tests le ! i))"
    using that skip_below_INT_MAX [of ext "tests le ! i" le r] by simp
  show "\<exists>le'. dispatch_record ext r le = Inr (Some 2, le') \<and> skip_cnt le' = skip_cnt le"
    if "classify ext (tests le ! i) le r = FAIL"
    using that dispatch_record_err [OF rc assms(1) nok] by (simp add: classify_FAIL)
next
  assume "0 \<le> skip_max (tests le ! i) \<and> skip_max (tests le ! i) \<le> INT_MAX
      \<and> skip_cnt le = 0"
  then show "classes ext rs le =
            replicate (min (length rs) (nat (skip_max (tests le ! i)))) SKIP
            @ (if nat (skip_max (tests le ! i)) < length rs then [FAIL] else [])"
    using classes_not_ok [OF assms(1,2)] by simp
qed

theorem skip_budget_witness:
  "test (ex_running [ex_test 1 LE_ANY 20 None] 0 0) = Some 0
   \<and> is_int (skip_cnt (ex_running [ex_test 1 LE_ANY 20 None] 0 0))
   \<and> reaches_classification ex_ext (ex_rec 21 5 ''a'')
   \<and> \<not> rec_ok ex_ext (tests (ex_running [ex_test 1 LE_ANY 20 None] 0 0) ! 0)
               (ex_running [ex_test 1 LE_ANY 20 None] 0 0) (ex_rec 21 5 ''a'')
   \<and> reaches_classification ex_ext (ex_rec 21 5 ''b'')
   \<and> \<not> rec_ok ex_ext (tests (ex_running [ex_test 1 LE_ANY 20 None] 0 0) ! 0)
               (ex_running [ex_test 1 LE_ANY 20 None] 0 0) (ex_rec 21 5 ''b'')
   \<and> reaches_classification ex_ext (ex_rec 21 5 ''c'')
   \<and> \<not> rec_ok ex_ext (tests (ex_running [ex_test 1 LE_ANY 20 None] 0 0) ! 0)
               (ex_running [ex_test 1 LE_ANY 20 None] 0 0) (ex_rec 21 5 ''c'')
   \<and> classes ex_ext [ex_rec 21 5 ''a'', ex_rec 21 5 ''b'', ex_rec 21 5 ''c'']
        (ex_running [ex_test 1 LE_ANY 20 None] 0 0) = [SKIP, FAIL]"
proof -
  let ?le = "ex_running [ex_test 1 LE_ANY 20 None] 0 0"
  let ?rs = "[ex_rec 21 5 ''a'', ex_rec 21 5 ''b'', ex_rec 21 5 ''c'']"
  have a: "test ?le = Some 0" by (simp add: ex_defs)
  have b: "\<forall>r \<in> set ?rs. reaches_classification ex_ext r
         \<and> \<not> rec_ok ex_ext (tests ?le ! 0) ?le r"
    by (simp add: ex_defs reaches_classification_def rec_ok_def)
  have i: "is_int (skip_cnt ?le)"
    by (simp add: ex_defs is_int_def INT_MIN_def INT_MAX_def)
  have c: "0 \<le> skip_max (tests ?le ! 0) \<and> skip_max (tests ?le ! 0) \<le> INT_MAX
      \<and> skip_cnt ?le = 0"
    "nat (skip_max (tests ?le ! 0)) = 1"
    by (simp_all add: ex_defs INT_MAX_def)
  from skip_budget [OF a b i] c a b i show ?thesis
    by simp
qed

text \<open>The claim as it was stated fails at \<open>INT_MAX\<close>: one more record that is not
  ok, against a test with \<open>skip_max = LE_ANY\<close>, is a skip that leaves the counter at
  \<open>INT_MIN\<close>, not at \<open>INT_MAX + 1\<close>.\<close>

theorem skip_budget_counterexample:
  "\<not> rec_ok ex_ext (ex_test LE_ANY 7 20 None)
        (ex_running [ex_test LE_ANY 7 20 None, ex_test 0 LE_LAST 20 None] 0 INT_MAX)
        (ex_rec 20 5 ''b'')
   \<and> skip_max (ex_test LE_ANY 7 20 None) = LE_ANY
   \<and> classify ex_ext (ex_test LE_ANY 7 20 None)
        (ex_running [ex_test LE_ANY 7 20 None, ex_test 0 LE_LAST 20 None] 0 INT_MAX)
        (ex_rec 20 5 ''b'') = SKIP
   \<and> dispatch_record ex_ext (ex_rec 20 5 ''b'')
        (ex_running [ex_test LE_ANY 7 20 None, ex_test 0 LE_LAST 20 None] 0 INT_MAX)
      = Inr (None, ex_running [ex_test LE_ANY 7 20 None, ex_test 0 LE_LAST 20 None] 0 INT_MIN)
   \<and> skip_cnt (ex_running [ex_test LE_ANY 7 20 None, ex_test 0 LE_LAST 20 None] 0 INT_MIN)
      \<noteq> skip_cnt (ex_running [ex_test LE_ANY 7 20 None, ex_test 0 LE_LAST 20 None] 0 INT_MAX)
          + 1"
  by (simp add: ex_defs dispatch_defs classify_def reaches_classification_def
      INT_MIN_def INT_MAX_def)

subsection \<open>The regex of a test\<close>

lemma new_calls_append [simp]: "new_calls le (le\<lparr>calls := calls le @ cs\<rparr>) = cs"
  by (simp add: new_calls_def)

lemma dispatch_record_new_calls:
  assumes rc: "reaches_classification ext r" and t: "test le = Some i"
  shows "\<exists>x le' logs. dispatch_record ext r le = Inr (x, le')
     \<and> new_calls le le' = rec_vre_calls (tests le ! i) r @ logs
     \<and> (\<forall>c \<in> set logs.
           (\<exists>l. c = Log_rec l (VSL_ID r) (VSL_TAG r) (rec_type r)
                      (printf_prec_s (VSL_LEN r - 1) (VSL_CDATA r)))
           \<or> (\<exists>s. c = Log_expecting s))"
proof (cases "classify ext (tests le ! i) le r")
  case MATCH
  then have ok: "rec_ok ext (tests le ! i) le r" by (simp add: classify_MATCH)
  let ?m = "Log_rec ''match'' (VSL_ID r) (VSL_TAG r) (rec_type r)
                      (printf_prec_s (VSL_LEN r - 1) (VSL_CDATA r))"
  define le2 where "le2 = le\<lparr>calls := calls le @ rec_vre_calls (tests le ! i) r @ [?m],
                 vxid_last := VSL_ID r, tag_last := VSL_TAG r, skip_cnt := 0\<rparr>"
  have eq: "dispatch_record ext r le =
      Inr (if test (logexp_next le2) = None then Some 1 else None, logexp_next le2)"
    using dispatch_record_ok [OF rc t ok] by (simp add: le2_def Let_def)
  obtain e where e: "calls (logexp_next le2) = calls le2 @ e"
      "e = [] \<or> (\<exists>s. e = [Log_expecting s])"
    using logexp_next_calls [of le2] by (cases "test (logexp_next le2)") auto
  have n: "new_calls le (logexp_next le2) = rec_vre_calls (tests le ! i) r @ (?m # e)"
    using e(1) by (simp add: new_calls_def le2_def)
  have "\<forall>c \<in> set (?m # e).
           (\<exists>l. c = Log_rec l (VSL_ID r) (VSL_TAG r) (rec_type r)
                      (printf_prec_s (VSL_LEN r - 1) (VSL_CDATA r)))
           \<or> (\<exists>s. c = Log_expecting s)"
    using e(2) by auto
  with eq n show ?thesis by blast
next
  case SKIP
  then have h: "\<not> rec_ok ext (tests le ! i) le r"
      "skip_max (tests le ! i) = LE_ANY \<or> skip_cnt le < skip_max (tests le ! i)"
    by (simp_all add: classify_SKIP)
  have "new_calls le (le\<lparr>calls := calls le @ rec_vre_calls (tests le ! i) r,
                    skip_cnt := int_incr (skip_cnt le)\<rparr>) = rec_vre_calls (tests le ! i) r @ []"
    by (simp add: new_calls_def)
  with dispatch_record_skip [OF rc t h] show ?thesis
    by (metis empty_iff list.set(1))
next
  case FAIL
  then have h: "\<not> rec_ok ext (tests le ! i) le r"
      "\<not> (skip_max (tests le ! i) = LE_ANY \<or> skip_cnt le < skip_max (tests le ! i))"
    by (simp_all add: classify_FAIL)
  let ?m = "Log_rec ''err'' (VSL_ID r) (VSL_TAG r) (rec_type r)
                      (printf_prec_s (VSL_LEN r - 1) (VSL_CDATA r))"
  have "new_calls le (le\<lparr>calls := calls le @ rec_vre_calls (tests le ! i) r @ [?m]\<rparr>)
      = rec_vre_calls (tests le ! i) r @ [?m]"
    by (simp add: new_calls_def)
  moreover have "\<forall>c \<in> set [?m].
           (\<exists>l. c = Log_rec l (VSL_ID r) (VSL_TAG r) (rec_type r)
                      (printf_prec_s (VSL_LEN r - 1) (VSL_CDATA r)))
           \<or> (\<exists>s. c = Log_expecting s)"
    by simp
  ultimately show ?thesis
    using dispatch_record_err [OF rc t h] by blast
qed

lemma rec_vre_calls_set:
  "Call_VRE_exec v d n \<in> set (rec_vre_calls p r) \<longleftrightarrow>
     vre p = Some v \<and> 0 \<le> tag p \<and> tag p = VSL_TAG r \<and> d = VSL_CDATA r \<and> n = VSL_LEN r - 1"
  by (auto simp add: rec_vre_calls_def split: option.splits)



lemma printf_prec_s_length:
  "0 \<le> n \<Longrightarrow> int (length (printf_prec_s n s)) \<le> n"
  by (simp add: printf_prec_s_def Let_def)




lemma rec_ok_regex:
  "rec_ok ext p le r \<longleftrightarrow>
     rec_ok ext (p\<lparr>vre := None\<rparr>) le r
     \<and> \<not> (\<exists>v. vre p = Some v \<and> 0 \<le> tag p \<and> tag p = VSL_TAG r
             \<and> VRE_exec ext v (VSL_CDATA r) (VSL_LEN r - 1) = VRE_ERROR_NOMATCH ext)"
  by (auto simp add: rec_ok_def Let_def split: option.splits)

lemma rec_ok_last_byte:
  assumes "\<forall>v s s' n. take (nat n) s = take (nat n) s' \<longrightarrow>
             VRE_exec ext v s n = VRE_exec ext v s' n"
    and "take (nat (VSL_LEN r - 1)) d = take (nat (VSL_LEN r - 1)) (VSL_CDATA r)"
  shows "rec_ok ext p le (r\<lparr>VSL_CDATA := d\<rparr>) = rec_ok ext p le r"
proof -
  have "VRE_exec ext v d (VSL_LEN r - 1) = VRE_exec ext v (VSL_CDATA r) (VSL_LEN r - 1)" for v
    using assms by blast
  then show ?thesis
    by (simp add: rec_ok_def Let_def split: option.splits)
qed

text \<open>
  C10 (as amended). For every record judged against the active test: every call of
  \<open>VRE_exec\<close> passes the record's payload and the length \<open>VSL_LEN - 1\<close>, and \<open>ok\<close>
  depends on the regex through the answer to that call only: the record is ok exactly
  when it is ok for the test without its regex and no such call answers "no match".
  So with a matcher that reads no more than the length it is given, a payload that
  differs from the last byte of the declared payload on is classified the same: that
  byte takes no part in matching. Every line logged for the record prints the payload
  with the precision \<open>VSL_LEN - 1\<close>; for a declared length of at least one that is at
  most \<open>VSL_LEN - 1\<close> bytes, so the last byte of the declared payload is not printed.
  (For a declared length of 0 the precision is \<open>- 1\<close>.)
\<close>

theorem regex_length:
  assumes "reaches_classification ext r" and "test le = Some i"
  shows "\<exists>x le'. dispatch_record ext r le = Inr (x, le')
     \<and> (\<forall>v d n. Call_VRE_exec v d n \<in> set (new_calls le le') \<longrightarrow>
           vre (tests le ! i) = Some v \<and> d = VSL_CDATA r \<and> n = VSL_LEN r - 1)
     \<and> (rec_ok ext (tests le ! i) le r \<longleftrightarrow>
           rec_ok ext ((tests le ! i)\<lparr>vre := None\<rparr>) le r
           \<and> \<not> (\<exists>v. Call_VRE_exec v (VSL_CDATA r) (VSL_LEN r - 1) \<in> set (new_calls le le')
                   \<and> VRE_exec ext v (VSL_CDATA r) (VSL_LEN r - 1) = VRE_ERROR_NOMATCH ext))
     \<and> ((\<forall>v s s' n. take (nat n) s = take (nat n) s' \<longrightarrow>
             VRE_exec ext v s n = VRE_exec ext v s' n) \<longrightarrow>
          (\<forall>d. take (nat (VSL_LEN r - 1)) d = take (nat (VSL_LEN r - 1)) (VSL_CDATA r) \<longrightarrow>
             classify ext (tests le ! i) le (r\<lparr>VSL_CDATA := d\<rparr>)
               = classify ext (tests le ! i) le r))
     \<and> (\<forall>l y t c tx. Log_rec l y t c tx \<in> set (new_calls le le') \<longrightarrow>
           tx = printf_prec_s (VSL_LEN r - 1) (VSL_CDATA r)
           \<and> (1 \<le> VSL_LEN r \<longrightarrow> int (length tx) \<le> VSL_LEN r - 1))"
proof -
  let ?p = "tests le ! i"
  from dispatch_record_new_calls [OF assms]
  obtain x le' logs where h: "dispatch_record ext r le = Inr (x, le')"
    "new_calls le le' = rec_vre_calls ?p r @ logs"
    "\<forall>c \<in> set logs.
           (\<exists>l. c = Log_rec l (VSL_ID r) (VSL_TAG r) (rec_type r)
                      (printf_prec_s (VSL_LEN r - 1) (VSL_CDATA r)))
           \<or> (\<exists>s. c = Log_expecting s)"
    by blast
  have m: "Call_VRE_exec v d n \<in> set (new_calls le le') \<longleftrightarrow>
      vre ?p = Some v \<and> 0 \<le> tag ?p \<and> tag ?p = VSL_TAG r \<and> d = VSL_CDATA r \<and> n = VSL_LEN r - 1"
    for v d n
    using h(3) by (auto simp add: h(2) rec_vre_calls_set)
  have a: "\<forall>v d n. Call_VRE_exec v d n \<in> set (new_calls le le') \<longrightarrow>
           vre ?p = Some v \<and> d = VSL_CDATA r \<and> n = VSL_LEN r - 1"
    by (simp add: m)
  have b: "rec_ok ext ?p le r \<longleftrightarrow>
           rec_ok ext (?p\<lparr>vre := None\<rparr>) le r
           \<and> \<not> (\<exists>v. Call_VRE_exec v (VSL_CDATA r) (VSL_LEN r - 1) \<in> set (new_calls le le')
                   \<and> VRE_exec ext v (VSL_CDATA r) (VSL_LEN r - 1) = VRE_ERROR_NOMATCH ext)"
    using rec_ok_regex [of ext ?p le r] by (auto simp add: m)
  have c: "\<forall>d. take (nat (VSL_LEN r - 1)) d = take (nat (VSL_LEN r - 1)) (VSL_CDATA r) \<longrightarrow>
             classify ext ?p le (r\<lparr>VSL_CDATA := d\<rparr>) = classify ext ?p le r"
    if "\<forall>v s s' n. take (nat n) s = take (nat n) s' \<longrightarrow>
             VRE_exec ext v s n = VRE_exec ext v s' n"
    using rec_ok_last_byte [OF that] by (simp add: classify_def)
  have nl: "Log_rec l y t c tx \<notin> set (rec_vre_calls ?p r)" for l y t c tx
    by (simp add: rec_vre_calls_def split: option.splits)
  have g: "tx = printf_prec_s (VSL_LEN r - 1) (VSL_CDATA r)"
    if "Log_rec l y t c tx \<in> set (new_calls le le')" for l y t c tx
    using that h(3) nl by (auto simp add: h(2))
  have d: "\<forall>l y t c tx. Log_rec l y t c tx \<in> set (new_calls le le') \<longrightarrow>
           tx = printf_prec_s (VSL_LEN r - 1) (VSL_CDATA r)
           \<and> (1 \<le> VSL_LEN r \<longrightarrow> int (length tx) \<le> VSL_LEN r - 1)"
    using g printf_prec_s_length [of "VSL_LEN r - 1" "VSL_CDATA r"] by auto
  from h(1) a b c d show ?thesis by blast
qed

theorem regex_length_witness:
  "reaches_classification ex_ext (ex_rec 30 5 ''/api/v1'')
   \<and> test (ex_running [ex_test 0 LE_ANY 30 (Some ''/api/v1'')] 0 0) = Some 0
   \<and> VSL_LEN (ex_rec 30 5 ''/api/v1'') = 8
   \<and> (\<exists>x le'. dispatch_record ex_ext (ex_rec 30 5 ''/api/v1'')
          (ex_running [ex_test 0 LE_ANY 30 (Some ''/api/v1'')] 0 0) = Inr (x, le')
        \<and> calls le' = [Call_VRE_exec ''/api/v1'' (''/api/v1'' @ [CHR 0x00]) 7,
              Log_rec ''match'' 5 30 CHR ''c'' ''/api/v1''])
   \<and> rec_ok ex_ext (ex_test 0 LE_ANY 30 (Some ''/api/v1''))
        (ex_running [ex_test 0 LE_ANY 30 (Some ''/api/v1'')] 0 0) (ex_rec 30 5 ''/api/v1'')
   \<and> classify ex_ext (ex_test 0 LE_ANY 30 (Some ''/api/v1''))
        (ex_running [ex_test 0 LE_ANY 30 (Some ''/api/v1'')] 0 0)
        ((ex_rec 30 5 ''/api/v1'')\<lparr>VSL_CDATA := ''/api/v1x''\<rparr>) = MATCH"
proof -
  let ?le = "ex_running [ex_test 0 LE_ANY 30 (Some ''/api/v1'')] 0 0"
  let ?r = "ex_rec 30 5 ''/api/v1''"
  have a: "reaches_classification ex_ext ?r"
    by (simp add: ex_defs reaches_classification_def)
  have b: "test ?le = Some 0" by (simp add: ex_defs)
  have p: "tests ?le ! 0 = ex_test 0 LE_ANY 30 (Some ''/api/v1'')" by (simp add: ex_defs)
  have e: "dispatch_record ex_ext ?r ?le =
      Inr (Some 1, ?le\<lparr>calls := [Call_VRE_exec ''/api/v1'' (''/api/v1'' @ [CHR 0x00]) 7,
              Log_rec ''match'' 5 30 CHR ''c'' ''/api/v1''], test := None,
              vxid_last := 5, tag_last := 30\<rparr>)"
    by (simp add: ex_defs dispatch_defs)
  have k: "rec_ok ex_ext (ex_test 0 LE_ANY 30 (Some ''/api/v1'')) ?le ?r"
    by (simp add: ex_defs rec_ok_def)
  have g: "\<forall>v s s' n. take (nat n) s = take (nat n) s' \<longrightarrow>
             VRE_exec ex_ext v s n = VRE_exec ex_ext v s' n"
    by (auto simp add: ex_ext_def simp del: take_take)
  have t: "take (nat (VSL_LEN ?r - 1)) ''/api/v1x''
      = take (nat (VSL_LEN ?r - 1)) (VSL_CDATA ?r)"
    by (simp add: ex_defs)
  have c: "classify ex_ext (ex_test 0 LE_ANY 30 (Some ''/api/v1'')) ?le ?r = MATCH"
    using k by (simp add: classify_MATCH)
  from regex_length [OF a b] obtain x le' where
    h: "dispatch_record ex_ext ?r ?le = Inr (x, le')"
       "(\<forall>v s s' n. take (nat n) s = take (nat n) s' \<longrightarrow>
             VRE_exec ex_ext v s n = VRE_exec ex_ext v s' n) \<longrightarrow>
          (\<forall>d. take (nat (VSL_LEN ?r - 1)) d = take (nat (VSL_LEN ?r - 1)) (VSL_CDATA ?r) \<longrightarrow>
             classify ex_ext (tests ?le ! 0) ?le (?r\<lparr>VSL_CDATA := d\<rparr>)
               = classify ex_ext (tests ?le ! 0) ?le ?r)"
    by blast
  from h(2) g t have "classify ex_ext (tests ?le ! 0) ?le (?r\<lparr>VSL_CDATA := ''/api/v1x''\<rparr>)
      = classify ex_ext (tests ?le ! 0) ?le ?r"
    by blast
  with c have m: "classify ex_ext (ex_test 0 LE_ANY 30 (Some ''/api/v1'')) ?le
      (?r\<lparr>VSL_CDATA := ''/api/v1x''\<rparr>) = MATCH"
    by (simp only: p)
  have l: "VSL_LEN ?r = 8" by (simp add: ex_defs)
  from a b l e k m show ?thesis
    by (simp add: ex_defs)
qed

text \<open>The claim as it was stated fails for a record whose declared length is 0:
  \<open>VRE_exec\<close> is given the length \<open>- 1\<close>, and the line logged for the record prints
  the three bytes before the NUL, where no byte is declared.\<close>

theorem regex_length_counterexample:
  "VSL_LEN ((ex_rec 30 5 ''abc'')\<lparr>VSL_LEN := 0\<rparr>) = 0
   \<and> dispatch_record ex_ext ((ex_rec 30 5 ''abc'')\<lparr>VSL_LEN := 0\<rparr>)
        (ex_running [ex_test 0 LE_ANY 30 (Some ''a'')] 0 0)
      = Inr (Some 2, (ex_running [ex_test 0 LE_ANY 30 (Some ''a'')] 0 0)
            \<lparr>calls := [Call_VRE_exec ''a'' (''abc'' @ [CHR 0x00]) (- 1),
                        Log_rec ''err'' 5 30 CHR ''c'' ''abc'']\<rparr>)
   \<and> \<not> int (length ''abc'') \<le> VSL_LEN ((ex_rec 30 5 ''abc'')\<lparr>VSL_LEN := 0\<rparr>) - 1"
  by (simp add: ex_defs dispatch_defs)

subsection \<open>References to the last match\<close>

lemma logexp_start_done:
  assumes "logexp_start ext le0 = (Cmd_done, le1)"
  shows "run le1" "vslq le1" "test le1 = None" "tests le1 = tests le0" "query le1 = query le0"
    "vxid_last le1 = - 1" "tag_last le1 = - 1" "skip_cnt le1 = 0"
  using assms
  by (auto simp add: logexp_start_def start_reset_def Let_def split: if_splits option.splits)

lemma run_state_invariant:
  assumes "run_state ext le0 ms le"
  shows "tests le = tests le0 \<and> cursor_ok le
     \<and> (test le \<noteq> None \<longrightarrow> test le = Some (length ms))
     \<and> (ms = [] \<longrightarrow> vxid_last le = - 1 \<and> tag_last le = - 1)
     \<and> (ms \<noteq> [] \<longrightarrow> vxid_last le = VSL_ID (last ms) \<and> tag_last le = VSL_TAG (last ms))"
  using assms
proof (induction rule: run_state.induct)
  case (run_start le1)
  note s = logexp_start_done [OF run_start]
  show ?case
    using thread_entry_measures(1) [OF s(3)] thread_entry_test [OF s(3)] s
    by (simp add: thread_entry_fields)
next
  case (run_step ms le r le' i ms')
  from run_step.IH run_step.hyps(3) have b: "i < length (tests le)" and il: "i = length ms"
    by (auto simp add: cursor_ok_def)
  from run_step.hyps(3) b show ?case
  proof (cases rule: dispatch_record_summary [where ext = ext and r = r])
    case filtered
    with run_step show ?thesis by simp
  next
    case (match_more l)
    with run_step.hyps(2) have e: "le' = l" by simp
    from match_more run_step.hyps(4) have m: "ms' = ms @ [r]" by simp
    show ?thesis
      using match_more run_step.IH il unfolding e m by (auto simp add: cursor_ok_def)
  next
    case (match_end l)
    with run_step.hyps(2) show ?thesis by simp
  next
    case (skip l)
    with run_step.hyps(2) have e: "le' = l" by simp
    from skip run_step.hyps(4) have m: "ms' = ms" by simp
    show ?thesis
      using skip run_step.IH run_step.hyps(3) unfolding e m by (auto simp add: cursor_ok_def)
  next
    case (fail l)
    with run_step.hyps(2) show ?thesis by simp
  qed
qed

lemma run_state_cursor:
  assumes "run_state ext le0 ms le" and "test le \<noteq> None"
    and "dispatch_cursor ext rs le = Inr (None, le')"
  shows "\<exists>ms'. run_state ext le0 ms' le'"
  using assms
proof (induction rs arbitrary: le ms)
  case Nil
  then show ?case by auto
next
  case (Cons r rs)
  from Cons.prems(2) obtain i where t: "test le = Some i" by auto
  from run_state_invariant [OF Cons.prems(1)] t have b: "i < length (tests le)"
    by (auto simp add: cursor_ok_def)
  from t b show ?case
  proof (cases rule: dispatch_record_summary [where ext = ext and r = r])
    case filtered
    with Cons.prems(3) have "dispatch_cursor ext rs le = Inr (None, le')" by simp
    from Cons.IH [OF Cons.prems(1,2) this] show ?thesis .
  next
    case (match_more l)
    with Cons.prems(3) have d: "dispatch_cursor ext rs l = Inr (None, le')" by simp
    have "run_state ext le0 (ms @ [r]) l"
      by (rule run_step [OF Cons.prems(1) match_more(3) t]) (use match_more in simp)
    from Cons.IH [OF this _ d] match_more(4) show ?thesis by simp
  next
    case (match_end l)
    with Cons.prems(3) show ?thesis by simp
  next
    case (skip l)
    with Cons.prems(3) have d: "dispatch_cursor ext rs l = Inr (None, le')" by simp
    have "run_state ext le0 ms l"
      by (rule run_step [OF Cons.prems(1) skip(3) t]) (use skip in simp)
    from Cons.IH [OF this _ d] skip(4) show ?thesis by simp
  next
    case (fail l)
    with Cons.prems(3) show ?thesis by simp
  qed
qed

lemma run_state_skip_cnt:
  assumes "run_state ext le0 ms le" and "test le = Some i"
    and "0 \<le> skip_max (tests le ! i)" and "skip_max (tests le ! i) \<le> INT_MAX"
  shows "0 \<le> skip_cnt le \<and> skip_cnt le \<le> skip_max (tests le ! i)"
  using assms
proof (induction arbitrary: i rule: run_state.induct)
  case (run_start le1)
  from logexp_start_done [OF run_start(1)] run_start(3) show ?case
    by (simp add: thread_entry_fields)
next
  case (run_step ms le r le' j ms')
  from run_state_invariant [OF run_step.hyps(1)] run_step.hyps(3)
  have b: "j < length (tests le)" by (auto simp add: cursor_ok_def)
  from run_step.hyps(3) b show ?case
  proof (cases rule: dispatch_record_summary [where ext = ext and r = r])
    case filtered
    with run_step show ?thesis by simp
  next
    case (match_more l)
    with run_step.hyps(2) run_step.prems show ?thesis by simp
  next
    case (match_end l)
    with run_step.hyps(2) show ?thesis by simp
  next
    case (skip l)
    with run_step.hyps(2) have e: "le' = l" by simp
    from skip run_step.prems e have ij: "i = j" by simp
    note p = run_step.prems(2,3) [unfolded e ij skip(5)]
    from run_step.IH [OF run_step.hyps(3) p] have ih:
      "0 \<le> skip_cnt le" "skip_cnt le \<le> skip_max (tests le ! j)" by simp_all
    from skip(2) p(1) have lt: "skip_cnt le < skip_max (tests le ! j)"
      by (simp add: classify_SKIP LE_ANY_def)
    have "int_incr (skip_cnt le) = skip_cnt le + 1"
      using ih lt p(2)
      by (intro int_incr_in_range) (simp_all add: is_int_def INT_MIN_def INT_MAX_def)
    with skip ih lt show ?thesis
      unfolding e ij by simp
  next
    case (fail l)
    with run_step.hyps(2) show ?thesis by simp
  qed
qed

lemma rec_ok_LAST:
  assumes "rec_ok ext p le r"
  shows "(vxid p = LE_LAST \<longrightarrow> vxid_last le = VSL_ID r)
       \<and> (tag p = LE_LAST \<longrightarrow> tag_last le = VSL_TAG r)"
  using assms by (auto simp add: rec_ok_def Let_def split: if_splits option.splits)

text \<open>
  C3. In every state of a run (from \<open>logexp_start\<close>, which sets \<open>vxid_last\<close> and
  \<open>tag_last\<close> to \<open>- 1\<close>, through the records that the thread goes over), when the
  active test uses \<open>LE_LAST\<close> for its vxid or its tag and a record with a vxid and a
  tag that are not negative matches it, a record has matched an earlier test of this
  run, and the field that the test refers to is the one that the last matching record
  left.
\<close>

theorem back_reference:
  assumes "run_state ext le0 ms le" and "test le = Some i"
    and "vxid (tests le ! i) = LE_LAST \<or> tag (tests le ! i) = LE_LAST"
    and "0 \<le> VSL_ID r" and "0 \<le> VSL_TAG r"
    and "classify ext (tests le ! i) le r = MATCH"
  shows "ms \<noteq> [] \<and> i = length ms \<and> 0 < i
     \<and> (vxid (tests le ! i) = LE_LAST \<longrightarrow> VSL_ID r = VSL_ID (last ms))
     \<and> (tag (tests le ! i) = LE_LAST \<longrightarrow> VSL_TAG r = VSL_TAG (last ms))"
proof -
  note inv = run_state_invariant [OF assms(1)]
  from assms(6) have ok: "rec_ok ext (tests le ! i) le r" by (simp add: classify_MATCH)
  note l = rec_ok_LAST [OF ok]
  have ne: "ms \<noteq> []"
  proof
    assume "ms = []"
    with inv have "vxid_last le = - 1" "tag_last le = - 1" by simp_all
    with l assms(3,4,5) show False by auto
  qed
  with inv assms(2) l show ?thesis by auto
qed


theorem back_reference_witness:
  "run_state ex_ext
      ((ex_le [ex_test 0 LE_ANY 10 None, ex_test 0 LE_LAST 11 None])\<lparr>n_arg := Some ''v1''\<rparr>)
      [ex_rec 10 5 ''a'']
      ((ex_le [ex_test 0 LE_ANY 10 None, ex_test 0 LE_LAST 11 None])
         \<lparr>n_arg := Some ''v1'', vslq := True, run := True, test := Some 1,
          vxid_last := 5, tag_last := 10,
          calls := [Call_pthread_create, Log_begin, Log_expecting ''expect'',
                    Log_rec ''match'' 5 10 CHR ''c'' ''a'', Log_expecting ''expect'']\<rparr>)
   \<and> classify ex_ext (ex_test 0 LE_LAST 11 None)
        ((ex_le [ex_test 0 LE_ANY 10 None, ex_test 0 LE_LAST 11 None])
         \<lparr>n_arg := Some ''v1'', vslq := True, run := True, test := Some 1,
          vxid_last := 5, tag_last := 10,
          calls := [Call_pthread_create, Log_begin, Log_expecting ''expect'',
                    Log_rec ''match'' 5 10 CHR ''c'' ''a'', Log_expecting ''expect'']\<rparr>)
        (ex_rec 11 5 ''b'') = MATCH
   \<and> VSL_ID (ex_rec 11 5 ''b'') = VSL_ID (last [ex_rec 10 5 ''a''])"
proof -
  let ?ts = "[ex_test 0 LE_ANY 10 None, ex_test 0 LE_LAST 11 None]"
  let ?le0 = "(ex_le ?ts)\<lparr>n_arg := Some ''v1''\<rparr>"
  let ?le1 = "(ex_le ?ts)\<lparr>n_arg := Some ''v1'', vslq := True, run := True,
           vxid_last := - 1, tag_last := - 1, calls := [Call_pthread_create]\<rparr>"
  let ?le2 = "(ex_le ?ts)\<lparr>n_arg := Some ''v1'', vslq := True, run := True, test := Some 0,
           vxid_last := - 1, tag_last := - 1,
           calls := [Call_pthread_create, Log_begin, Log_expecting ''expect'']\<rparr>"
  let ?le3 = "(ex_le ?ts)\<lparr>n_arg := Some ''v1'', vslq := True, run := True, test := Some 1,
          vxid_last := 5, tag_last := 10,
          calls := [Call_pthread_create, Log_begin, Log_expecting ''expect'',
                    Log_rec ''match'' 5 10 CHR ''c'' ''a'', Log_expecting ''expect'']\<rparr>"
  have s: "logexp_start ex_ext ?le0 = (Cmd_done, ?le1)"
    by (simp add: ex_defs thread_defs Let_def)
  have e: "thread_entry ?le1 = ?le2"
    by (simp add: ex_defs thread_defs logexp_next_def Let_def)
  have d: "dispatch_record ex_ext (ex_rec 10 5 ''a'') ?le2 = Inr (None, ?le3)"
    by (simp add: ex_defs dispatch_defs)
  have c0: "reaches_classification ex_ext (ex_rec 10 5 ''a'')
      \<and> classify ex_ext (tests ?le2 ! 0) ?le2 (ex_rec 10 5 ''a'') = MATCH"
    by (simp add: ex_defs thread_defs rec_ok_def)
  have r0: "run_state ex_ext ?le0 [] ?le2"
    using run_start [OF s] by (simp only: e)
  have r1: "run_state ex_ext ?le0 [ex_rec 10 5 ''a''] ?le3"
    by (rule run_step [OF r0 d, of 0]) (use c0 in \<open>simp_all add: ex_defs\<close>)
  have t: "test ?le3 = Some 1" by (simp add: ex_defs)
  have p: "tests ?le3 ! 1 = ex_test 0 LE_LAST 11 None" by (simp add: ex_defs)
  have u: "vxid (tests ?le3 ! 1) = LE_LAST \<or> tag (tests ?le3 ! 1) = LE_LAST"
    by (simp add: ex_defs)
  have n: "0 \<le> VSL_ID (ex_rec 11 5 ''b'')" "0 \<le> VSL_TAG (ex_rec 11 5 ''b'')"
    by (simp_all add: ex_defs)
  have c: "classify ex_ext (tests ?le3 ! 1) ?le3 (ex_rec 11 5 ''b'') = MATCH"
    by (simp add: ex_defs thread_defs rec_ok_def)
  from back_reference [OF r1 t u n c] r1 c show ?thesis
    unfolding p by (simp add: ex_defs)
qed


subsection \<open>Compiling an \<open>expect\<close> line\<close>

lemma strtol_empty: "strtol [] = (0, [])"
  by (simp add: strtol_def)

lemma expect_skip_empty: "expect_skip [] = Inr 0"
  by (simp add: expect_skip_def strtol_empty int_of_long_def)

lemma expect_fatal_keeps_engine:
  "fst (cmd_logexp_expect ext av le) \<noteq> Cmd_done \<Longrightarrow> snd (cmd_logexp_expect ext av le) = le"
  by (simp add: cmd_logexp_expect_def split: if_splits sum.splits)

lemma expect_token_count:
  "length av < 4 \<or> 5 < length av \<Longrightarrow>
     cmd_logexp_expect ext av le = (Cmd_fatal F_syntax_error, le)"
  by (auto simp add: cmd_logexp_expect_def)

lemma expect_skip_range: "expect_skip a = Inr n \<Longrightarrow> n = LE_ANY \<or> 0 \<le> n"
  by (auto simp add: expect_skip_def Let_def split: if_splits)

lemma expect_vxid_range: "expect_vxid a = Inr n \<Longrightarrow> n = LE_ANY \<or> n = LE_LAST \<or> 0 \<le> n"
  by (auto simp add: expect_vxid_def Let_def split: if_splits)

lemma expect_tag_range: "expect_tag ext a = Inr n \<Longrightarrow> n = LE_ANY \<or> n = LE_LAST \<or> 0 \<le> n"
  by (auto simp add: expect_tag_def Let_def split: if_splits)

lemma expect_done:
  assumes "cmd_logexp_expect ext av le = (Cmd_done, le')"
  shows "(length av = 4 \<or> length av = 5)
     \<and> (\<exists>p. le' = le\<lparr>tests := tests le @ [p]\<rparr>
          \<and> expect_skip (av ! 1) = Inr (skip_max p)
          \<and> expect_vxid (av ! 2) = Inr (vxid p)
          \<and> expect_tag ext (av ! 3) = Inr (tag p)
          \<and> expect_vre ext av = Inr (vre p))"
  using assms
  by (auto simp add: cmd_logexp_expect_def split: if_splits sum.splits)


text \<open>
  C7. An \<open>expect\<close> line is compiled from 3 or 4 tokens; the skip and the vxid must
  be \<open>*\<close> (or \<open>=\<close> for the vxid) or a non-negative integer. The code takes the
  number with \<open>strtol\<close> and only looks at the character where the conversion
  stopped: for the empty token nothing is converted, \<open>*end\<close> is the closing NUL, and
  the token is accepted as 0. The line \<open>expect "" * *\<close> is compiled, with
  \<open>skip_max = 0\<close>, and appended to the list.
\<close>

theorem expect_empty_token_accepted:
  "cmd_logexp_expect ext [''expect'', [], ''*'', ''*''] le =
     (Cmd_done,
      le\<lparr>tests := tests le @
         [\<lparr>str = ''expect  * * '', vxid = LE_ANY, tag = LE_ANY, vre = None, skip_max = 0\<rparr>]\<rparr>)"
  by (simp add: cmd_logexp_expect_def expect_skip_empty expect_vxid_def expect_tag_def
      expect_vre_def)


subsection \<open>The implicit wait\<close>

lemma le_config_calls [simp]: "le_config (le\<lparr>calls := cs\<rparr>) = le_config le"
  by (simp add: le_config_def)

lemma le_config_next: "le_config (logexp_next le) = le_config le"
  by (simp add: logexp_next_def le_config_def Let_def split: option.splits)

lemma run_next: "run (logexp_next le) = run le"
  by (simp add: logexp_next_fields)

lemma dispatch_record_config:
  "dispatch_record ext r le = Inr (x, le') \<Longrightarrow> le_config le' = le_config le"
proof (cases "reaches_classification ext r \<and> test le \<noteq> None")
  case False
  assume d: "dispatch_record ext r le = Inr (x, le')"
  from False d show ?thesis
    by (auto simp add: dispatch_record_def reaches_classification_def Let_def
        split: if_splits option.splits)
next
  case True
  assume d: "dispatch_record ext r le = Inr (x, le')"
  from True obtain i where rc: "reaches_classification ext r" and t: "test le = Some i"
    by auto
  show ?thesis
  proof (cases "classify ext (tests le ! i) le r")
    case MATCH
    then have ok: "rec_ok ext (tests le ! i) le r" by (simp add: classify_MATCH)
    from d show ?thesis
      unfolding dispatch_record_ok [OF rc t ok]
      by (auto simp add: Let_def le_config_next) (simp add: le_config_def)
  next
    case SKIP
    then have h: "\<not> rec_ok ext (tests le ! i) le r"
      "skip_max (tests le ! i) = LE_ANY \<or> skip_cnt le < skip_max (tests le ! i)"
      by (simp_all add: classify_SKIP)
    from d show ?thesis
      unfolding dispatch_record_skip [OF rc t h] by (auto simp add: le_config_def)
  next
    case FAIL
    then have h: "\<not> rec_ok ext (tests le ! i) le r"
      "\<not> (skip_max (tests le ! i) = LE_ANY \<or> skip_cnt le < skip_max (tests le ! i))"
      by (simp_all add: classify_FAIL)
    from d show ?thesis
      unfolding dispatch_record_err [OF rc t h] by (auto simp add: le_config_def)
  qed
qed

lemma dispatch_cursor_config:
  "dispatch_cursor ext rs le = Inr (x, le') \<Longrightarrow> le_config le' = le_config le"
proof (induction rs arbitrary: le)
  case Nil
  then show ?case by simp
next
  case (Cons r rs)
  show ?case
  proof (cases "dispatch_record ext r le")
    case (Inl a)
    with Cons.prems show ?thesis by simp
  next
    case (Inr z)
    obtain y l where z: "z = (y, l)" by (cases z)
    note c = dispatch_record_config [OF Inr [unfolded z]]
    show ?thesis
    proof (cases y)
      case None
      with Cons.prems Inr z have "dispatch_cursor ext rs l = Inr (x, le')" by simp
      from Cons.IH [OF this] c show ?thesis by simp
    next
      case (Some k)
      with Cons.prems Inr z c show ?thesis by simp
    qed
  qed
qed

lemma logexp_dispatch_config:
  "logexp_dispatch ext pt le = Inr (c, le') \<Longrightarrow> le_config le' = le_config le"
  using dispatch_cursor_config [of ext "concat pt" le]
  by (auto simp add: logexp_dispatch_concat split: sum.splits option.splits)

lemma VSLQ_Dispatch_config:
  "VSLQ_Dispatch ext b le = Inr (c, le') \<Longrightarrow> le_config le' = le_config le"
  using logexp_dispatch_config [of ext "fst b" le]
  by (auto simp add: VSLQ_Dispatch_def split: sum.splits)

lemma thread_loop_config:
  "thread_loop ext src le = (x, le') \<Longrightarrow> le_config le' = le_config le"
proof (induction src arbitrary: le)
  case Nil
  then show ?case by (auto split: option.splits)
next
  case (Cons b src)
  show ?case
  proof (cases "test le")
    case None
    with Cons.prems show ?thesis by simp
  next
    case (Some j)
    show ?thesis
    proof (cases "VSLQ_Dispatch ext b le")
      case (Inl a)
      with Cons.prems Some show ?thesis by simp
    next
      case (Inr z)
      obtain i l where z: "z = (i, l)" by (cases z)
      note c = VSLQ_Dispatch_config [OF Inr [unfolded z]]
      show ?thesis
      proof (cases "i = 2 \<or> i < 0")
        case True
        with Cons.prems Some Inr z c show ?thesis by auto
      next
        case False
        with Cons.prems Some Inr z have "thread_loop ext src l = (x, le')" by simp
        from Cons.IH [OF this] c show ?thesis by simp
      qed
    qed
  qed
qed

lemma thread_entry_config: "le_config (thread_entry le) = le_config le"
  by (simp add: thread_entry_def Let_def le_config_next split: option.splits)

lemma logexp_thread_config:
  "logexp_thread ext src le = (x, le') \<Longrightarrow> le_config le' = le_config le"
  using thread_loop_config [of ext src "thread_entry le"]
  by (auto simp add: logexp_thread_def thread_entry_config
      split: if_splits prod.splits thread_exit.splits)

lemma logexp_wait_config:
  "logexp_wait ext ws le = (x, ws1, le1) \<Longrightarrow> le_config le1 = le_config le"
  using logexp_thread_config [of ext "case ws of [] \<Rightarrow> [] | w # ws' \<Rightarrow> w" le]
  by (auto simp add: logexp_wait_def logexp_close_def Let_def le_config_def
      split: prod.splits thread_exit.splits if_splits)

lemma logexp_wait_done:
  "logexp_wait ext ws le = (Cmd_done, ws1, le1) \<Longrightarrow>
     \<not> run le1 \<and> \<not> vslq le1 \<and> calls le1 \<noteq> [] \<and> last (calls le1) = Call_pthread_join"
  by (auto simp add: logexp_wait_def logexp_close_def Let_def
      split: prod.splits thread_exit.splits if_splits)

lemma logexp_start_config:
  "logexp_start ext le = (x, le1) \<Longrightarrow> le_config le1 = le_config le"
  by (auto simp add: logexp_start_def start_reset_def le_config_def Let_def
      split: if_splits option.splits)

lemma expect_run: "cmd_logexp_expect ext av le = (x, le') \<Longrightarrow> run le' = run le"
  by (auto simp add: cmd_logexp_expect_def split: if_splits sum.splits)

lemma run_logexp_cmds_run: "run_logexp_cmds ext cmds le = (x, le') \<Longrightarrow> run le' = run le"
proof (induction cmds arbitrary: le)
  case Nil
  then show ?case by simp
next
  case (Cons av cmds)
  show ?case
  proof (cases "av \<noteq> [] \<and> hd av = ''expect''")
    case False
    with Cons show ?thesis by (auto split: if_splits)
  next
    case True
    obtain y l where e: "cmd_logexp_expect ext av le = (y, l)"
      by (cases "cmd_logexp_expect ext av le")
    note r = expect_run [OF e]
    show ?thesis
    proof (cases "y = Cmd_done")
      case True
      with Cons.prems \<open>av \<noteq> [] \<and> hd av = ''expect''\<close> e
      have "run_logexp_cmds ext cmds l = (x, le')" by simp
      from Cons.IH [OF this] r show ?thesis by simp
    next
      case False
      with Cons.prems \<open>av \<noteq> [] \<and> hd av = ''expect''\<close> e r show ?thesis
        by (cases y) auto
    qed
  qed
qed

lemma logexp_spec_run: "logexp_spec ext spec le = (x, le') \<Longrightarrow> run le' = run le"
  using run_logexp_cmds_run [of ext "parse_string ext spec" "le\<lparr>tests := []\<rparr>"]
  by (simp add: logexp_spec_def)

lemma handle_arg_config:
  assumes "handle_arg ext a nxt ws le = (y, c, ws2, le2)" and "\<not> run le"
  shows "le_config le2 = le_config le \<or> \<not> run le2"
proof -
  consider (v) "a = ''-v''" | (d) "a = ''-d''" | (g) "a = ''-g''" | (q) "a = ''-q''"
    | (start) "a = ''-start''" | (run) "a = ''-run''"
    | (arg) "a \<notin> {''-v'', ''-d'', ''-g'', ''-q'', ''-start'', ''-run''}" "a \<noteq> [] \<and> hd a = CHR ''-''"
    | (spec) "a \<notin> {''-v'', ''-d'', ''-g'', ''-q'', ''-start'', ''-run''}" "\<not> (a \<noteq> [] \<and> hd a = CHR ''-'')"
    by blast
  then show ?thesis
  proof cases
    case v
    with assms show ?thesis by (auto simp add: handle_arg_def split: option.splits)
  next
    case d
    with assms show ?thesis by (auto simp add: handle_arg_def split: option.splits)
  next
    case g
    with assms show ?thesis
      by (auto simp add: handle_arg_def Let_def split: option.splits if_splits)
  next
    case q
    with assms show ?thesis by (auto simp add: handle_arg_def split: option.splits)
  next
    case start
    obtain x l where s: "logexp_start ext le = (x, l)" by (cases "logexp_start ext le")
    from assms(1) start s have "le2 = l" by (cases x) (simp_all add: handle_arg_def)
    with logexp_start_config [OF s] show ?thesis by simp
  next
    case run
    obtain x l where s: "logexp_start ext le = (x, l)" by (cases "logexp_start ext le")
    note sc = logexp_start_config [OF s]
    show ?thesis
    proof (cases "x = Cmd_done")
      case False
      with assms(1) run s have "le2 = l" by (cases x) (simp_all add: handle_arg_def)
      with sc show ?thesis by simp
    next
      case True
      obtain z w l2 where wt: "logexp_wait ext ws l = (z, w, l2)"
        by (cases "logexp_wait ext ws l") auto
      from assms(1) run s True wt have "le2 = l2"
        by (cases z) (simp_all add: handle_arg_def)
      with logexp_wait_config [OF wt] sc show ?thesis by simp
    qed
  next
    case arg
    with assms show ?thesis
      by (auto simp add: handle_arg_def Let_def split: option.splits if_splits)
  next
    case spec
    obtain x l where s: "logexp_spec ext a le = (x, l)" by (cases "logexp_spec ext a le")
    from assms(1) spec s have "le2 = l" by (cases x) (auto simp add: handle_arg_def)
    with logexp_spec_run [OF s] assms(2) show ?thesis by simp
  qed
qed


lemma logexpect_states_hd:
  "logexpect_states ext av ws le \<noteq> [] \<and> hd (logexpect_states ext av ws le) = le"
proof (cases av)
  case Nil
  then show ?thesis by simp
next
  case (Cons a av')
  obtain x ws1 le1 where w: "logexp_wait ext ws le = (x, ws1, le1)"
    by (cases "logexp_wait ext ws le") auto
  obtain y c ws2 le2 where h:
    "handle_arg ext a (case av' of [] \<Rightarrow> None | b # av'' \<Rightarrow> Some b) ws le = (y, c, ws2, le2)"
    by (cases "handle_arg ext a (case av' of [] \<Rightarrow> None | b # av'' \<Rightarrow> Some b) ws le") auto
  show ?thesis
    unfolding Cons using w h
    by (cases x; cases y) (auto split: if_splits)
qed

lemma implicit_wait_steps:
  "successively (\<lambda>s s'. le_config s' \<noteq> le_config s \<longrightarrow> \<not> run s \<and> \<not> run s')
     (logexpect_states ext av ws le)"
proof (induction av arbitrary: ws le rule: length_induct)
  case (1 av)
  let ?P = "\<lambda>s s'. le_config s' \<noteq> le_config s \<longrightarrow> \<not> run s \<and> \<not> run s'"
  show ?case
  proof (cases av)
    case Nil
    then show ?thesis by simp
  next
    case (Cons a av')
    show ?thesis
    proof (cases "vtc_error ext (calls le)")
      case True
      with Cons show ?thesis by simp
    next
      case ne: False
      obtain x ws1 le1 where w: "logexp_wait ext ws le = (x, ws1, le1)"
        by (cases "logexp_wait ext ws le") auto
      note wc = logexp_wait_config [OF w]
      show ?thesis
      proof (cases "a = ''-wait''")
        case True
        show ?thesis
        proof (cases "run le \<and> x = Cmd_done")
          case False
          with Cons ne True w wc show ?thesis by (cases x) auto
        next
          case t: True
          have st: "logexpect_states ext av ws le = le # logexpect_states ext av' ws1 le1"
            using Cons ne True w t by simp
          have ih: "successively ?P (logexpect_states ext av' ws1 le1)"
            using "1.IH" Cons by simp
          show ?thesis
            unfolding st using ih wc logexpect_states_hd [of ext av' ws1 le1]
            by (simp add: successively_Cons)
        qed
      next
        case nw: False
        define nxt where "nxt = (case av' of [] \<Rightarrow> None | b # av'' \<Rightarrow> Some b)"
        show ?thesis
        proof (cases "run le")
          case r: True
          show ?thesis
          proof (cases "x = Cmd_done")
            case False
            with Cons ne nw r w wc show ?thesis by (cases x) auto
          next
            case d: True
            note wd = logexp_wait_done [OF w [unfolded d]]
            obtain y c ws2 le2 where h: "handle_arg ext a nxt ws1 le1 = (y, c, ws2, le2)"
              by (cases "handle_arg ext a nxt ws1 le1") auto
            from wd have nr: "\<not> run le1" by simp
            note hc = handle_arg_config [OF h nr]
            show ?thesis
            proof (cases y)
              case (Some e)
              have "logexpect_states ext av ws le = [le, le1, le2]"
                using Cons ne nw r w d h Some nr by (simp add: nxt_def)
              then show ?thesis using wc hc nr by auto
            next
              case None
              let ?S = "logexpect_states ext (if c then tl av' else av') ws2 le2"
              have st: "logexpect_states ext av ws le = le # le1 # ?S"
                using Cons ne nw r w d h None nr by (simp add: nxt_def)
              have ih: "successively ?P ?S"
                using "1.IH" Cons by simp
              show ?thesis
                unfolding st
                using ih wc hc nr logexpect_states_hd [of ext "if c then tl av' else av'" ws2 le2]
                by (auto simp add: successively_Cons)
            qed
          qed
        next
          case nr: False
          obtain y c ws2 le2 where h: "handle_arg ext a nxt ws le = (y, c, ws2, le2)"
            by (cases "handle_arg ext a nxt ws le") auto
          note hc = handle_arg_config [OF h nr]
          show ?thesis
          proof (cases y)
            case (Some e)
            have "logexpect_states ext av ws le = [le, le2]"
              using Cons ne nw nr h Some by (simp add: nxt_def)
            then show ?thesis using hc nr by auto
          next
            case None
            let ?S = "logexpect_states ext (if c then tl av' else av') ws2 le2"
            have st: "logexpect_states ext av ws le = le # ?S"
              using Cons ne nw nr h None by (simp add: nxt_def)
            have ih: "successively ?P ?S"
              using "1.IH" Cons by simp
            show ?thesis
              unfolding st
              using ih hc nr logexpect_states_hd [of ext "if c then tl av' else av'" ws2 le2]
              by (auto simp add: successively_Cons)
          qed
        qed
      qed
    qed
  qed
qed


lemma logexpect_states_last:
  "last (logexpect_states ext av ws le) = snd (snd (logexpect_args ext av ws le))"
proof (induction av arbitrary: ws le rule: length_induct)
  case (1 av)
  show ?case
  proof (cases av)
    case Nil
    then show ?thesis by simp
  next
    case (Cons a av')
    show ?thesis
    proof (cases "vtc_error ext (calls le)")
      case True
      with Cons show ?thesis by simp
    next
      case ne: False
      obtain x ws1 le1 where w: "logexp_wait ext ws le = (x, ws1, le1)"
        by (cases "logexp_wait ext ws le") auto
      show ?thesis
      proof (cases "a = ''-wait''")
        case True
        show ?thesis
        proof (cases "run le \<and> x = Cmd_done")
          case False
          with Cons ne True w show ?thesis by (cases x) auto
        next
          case t: True
          have "last (logexpect_states ext av' ws1 le1)
              = snd (snd (logexpect_args ext av' ws1 le1))"
            using "1.IH" Cons by simp
          then show ?thesis
            using Cons ne True w t logexpect_states_hd [of ext av' ws1 le1] by simp
        qed
      next
        case nw: False
        define nxt where "nxt = (case av' of [] \<Rightarrow> None | b # av'' \<Rightarrow> Some b)"
        define lw where "lw = (if run le then le1 else le)"
        define ww where "ww = (if run le then ws1 else ws)"
        obtain y c ws2 le2 where h: "handle_arg ext a nxt ww lw = (y, c, ws2, le2)"
          by (cases "handle_arg ext a nxt ww lw") auto
        show ?thesis
        proof (cases "run le \<and> x \<noteq> Cmd_done")
          case True
          with Cons ne nw w show ?thesis by (cases x) auto
        next
          case False
          then have iw: "(if run le then logexp_wait ext ws le else (Cmd_done, ws, le))
              = (Cmd_done, ww, lw)"
            using w by (auto simp add: lw_def ww_def)
          have nr: "\<not> run lw"
            using False w logexp_wait_done [of ext ws le ws1 le1] by (auto simp add: lw_def)
          show ?thesis
          proof (cases y)
            case (Some e)
            show ?thesis
              unfolding Cons logexpect_states.simps logexpect_args.simps
              using ne nw iw nr h Some by (simp add: nxt_def)
          next
            case None
            let ?av = "if c then tl av' else av'"
            have ih: "last (logexpect_states ext ?av ws2 le2)
                = snd (snd (logexpect_args ext ?av ws2 le2))"
              using "1.IH" Cons by simp
            show ?thesis
              unfolding Cons logexpect_states.simps logexpect_args.simps
              using ne nw iw nr h None ih logexpect_states_hd [of ext ?av ws2 le2]
              by (simp add: nxt_def)
          qed
        qed
      qed
    qed
  qed
qed

lemmas cmd_defs = logexp_wait_def logexp_close_def handle_arg_def strtol_def isspace_def
  isdigit_def int_of_long_def LONG_MAX_def LONG_MIN_def le_config_def

text \<open>
  C8. In the loop over the arguments of \<open>logexpect\<close>, every step that changes the
  configuration of the engine or its list of tests begins and ends with the engine not
  running. An argument other than \<open>-wait\<close> that is read while \<open>run\<close> is set is
  handled as follows: \<open>logexp_wait\<close> comes first and changes nothing of the
  configuration; if it does not return normally the command ends there; if it does,
  \<open>pthread_join\<close> is the last call made, \<open>run\<close> is cleared, and only then the
  argument is handled, in that state.
\<close>

theorem implicit_wait_rule:
  "successively (\<lambda>s s'. le_config s' \<noteq> le_config s \<longrightarrow> \<not> run s \<and> \<not> run s')
     (logexpect_states ext av ws le)
   \<and> last (logexpect_states ext av ws le) = snd (snd (logexpect_args ext av ws le))
   \<and> (av \<noteq> [] \<and> hd av \<noteq> ''-wait'' \<and> run le \<and> \<not> vtc_error ext (calls le) \<longrightarrow>
        (\<exists>x ws1 le1. logexp_wait ext ws le = (x, ws1, le1)
           \<and> le_config le1 = le_config le
           \<and> logexpect_states ext av ws le ! 1 = le1
           \<and> (x \<noteq> Cmd_done \<longrightarrow> logexpect_args ext av ws le = (x, ws1, le1))
           \<and> (x = Cmd_done \<longrightarrow>
                \<not> run le1 \<and> last (calls le1) = Call_pthread_join
                \<and> logexpect_args ext av ws le =
                    (case handle_arg ext (hd av)
                            (case tl av of [] \<Rightarrow> None | b # av' \<Rightarrow> Some b) ws1 le1 of
                       (Some y, c, ws2, le2) \<Rightarrow> (y, ws2, le2)
                     | (None, c, ws2, le2) \<Rightarrow>
                         logexpect_args ext (if c then tl (tl av) else tl av) ws2 le2))))"
proof (intro conjI impI)
  show "successively (\<lambda>s s'. le_config s' \<noteq> le_config s \<longrightarrow> \<not> run s \<and> \<not> run s')
     (logexpect_states ext av ws le)"
    by (rule implicit_wait_steps)
  show "last (logexpect_states ext av ws le) = snd (snd (logexpect_args ext av ws le))"
    by (rule logexpect_states_last)
next
  assume a: "av \<noteq> [] \<and> hd av \<noteq> ''-wait'' \<and> run le \<and> \<not> vtc_error ext (calls le)"
  then obtain b av' where av: "av = b # av'" by (cases av) auto
  obtain x ws1 le1 where w: "logexp_wait ext ws le = (x, ws1, le1)"
    by (cases "logexp_wait ext ws le") auto
  note wc = logexp_wait_config [OF w]
  define nxt where "nxt = (case av' of [] \<Rightarrow> None | c # av'' \<Rightarrow> Some c)"
  obtain y c ws2 le2 where h: "handle_arg ext b nxt ws1 le1 = (y, c, ws2, le2)"
    by (cases "handle_arg ext b nxt ws1 le1") auto
  have s1: "logexpect_states ext av ws le ! 1 = le1"
  proof (cases "x = Cmd_done")
    case False
    with a av w show ?thesis by (cases x) auto
  next
    case True
    with logexp_wait_done [of ext ws le ws1 le1] w have nr: "\<not> run le1" by simp
    show ?thesis
      using a av w True nr h logexpect_states_hd [of ext "if c then tl av' else av'" ws2 le2]
      by (cases y) (auto simp add: nxt_def)
  qed
  have f: "logexpect_args ext av ws le = (x, ws1, le1)" if "x \<noteq> Cmd_done"
    using that a av w by (cases x) auto
  have d: "\<not> run le1 \<and> last (calls le1) = Call_pthread_join
       \<and> logexpect_args ext av ws le =
           (case handle_arg ext (hd av) (case tl av of [] \<Rightarrow> None | b # av' \<Rightarrow> Some b) ws1 le1 of
              (Some y, c, ws2, le2) \<Rightarrow> (y, ws2, le2)
            | (None, c, ws2, le2) \<Rightarrow>
                logexpect_args ext (if c then tl (tl av) else tl av) ws2 le2)"
    if "x = Cmd_done"
  proof -
    from that w logexp_wait_done [of ext ws le ws1 le1]
    have nr: "\<not> run le1" and lj: "last (calls le1) = Call_pthread_join" by simp_all
    show ?thesis
      using a av w that nr lj h by (cases y) (auto simp add: nxt_def)
  qed
  show "\<exists>x ws1 le1. logexp_wait ext ws le = (x, ws1, le1)
           \<and> le_config le1 = le_config le
           \<and> logexpect_states ext av ws le ! 1 = le1
           \<and> (x \<noteq> Cmd_done \<longrightarrow> logexpect_args ext av ws le = (x, ws1, le1))
           \<and> (x = Cmd_done \<longrightarrow>
                \<not> run le1 \<and> last (calls le1) = Call_pthread_join
                \<and> logexpect_args ext av ws le =
                    (case handle_arg ext (hd av)
                            (case tl av of [] \<Rightarrow> None | b # av' \<Rightarrow> Some b) ws1 le1 of
                       (Some y, c, ws2, le2) \<Rightarrow> (y, ws2, le2)
                     | (None, c, ws2, le2) \<Rightarrow>
                         logexpect_args ext (if c then tl (tl av) else tl av) ws2 le2))"
    using w wc s1 f d by blast
qed


theorem implicit_wait_rule_witness:
  "[''-d'', ''1''] \<noteq> [] \<and> hd [''-d'', ''1''] \<noteq> ''-wait''
   \<and> run (snd (logexp_start ex_ext ((ex_le [ex_test 0 LE_ANY 10 None])\<lparr>n_arg := Some ''v1''\<rparr>)))
   \<and> \<not> vtc_error ex_ext
         (calls (snd (logexp_start ex_ext ((ex_le [ex_test 0 LE_ANY 10 None])\<lparr>n_arg := Some ''v1''\<rparr>))))
   \<and> (\<exists>le1 le2. logexpect_states ex_ext [''-d'', ''1''] [[([[ex_rec 10 5 ''a'']], 1)]]
          (snd (logexp_start ex_ext ((ex_le [ex_test 0 LE_ANY 10 None])\<lparr>n_arg := Some ''v1''\<rparr>)))
        = [snd (logexp_start ex_ext ((ex_le [ex_test 0 LE_ANY 10 None])\<lparr>n_arg := Some ''v1''\<rparr>)),
           le1, le2]
        \<and> \<not> run le1 \<and> d_arg le1 = 0 \<and> last (calls le1) = Call_pthread_join
        \<and> \<not> run le2 \<and> d_arg le2 = 1
        \<and> logexpect_args ex_ext [''-d'', ''1''] [[([[ex_rec 10 5 ''a'']], 1)]]
          (snd (logexp_start ex_ext ((ex_le [ex_test 0 LE_ANY 10 None])\<lparr>n_arg := Some ''v1''\<rparr>)))
            = (Cmd_done, [], le2))"
proof -
  let ?le = "snd (logexp_start ex_ext ((ex_le [ex_test 0 LE_ANY 10 None])\<lparr>n_arg := Some ''v1''\<rparr>))"
  let ?ws = "[[([[ex_rec 10 5 ''a'']], 1)]]"
  let ?l0 = "(ex_le [ex_test 0 LE_ANY 10 None])\<lparr>n_arg := Some ''v1'', vslq := True, run := True,
           vxid_last := - 1, tag_last := - 1, calls := [Call_pthread_create]\<rparr>"
  let ?l1 = "(ex_le [ex_test 0 LE_ANY 10 None])\<lparr>n_arg := Some ''v1'', vslq := False, run := False,
           vxid_last := 5, tag_last := 10,
           calls := [Call_pthread_create, Log_begin, Log_expecting ''expect'',
                     Log_rec ''match'' 5 10 CHR ''c'' ''a'', Log_end, Log_waiting,
                     Call_pthread_join]\<rparr>"
  have e: "?le = ?l0"
    by (simp add: ex_defs thread_defs Let_def)
  have w: "logexp_wait ex_ext ?ws ?l0 = (Cmd_done, [], ?l1)"
    by (simp add: ex_defs thread_defs dispatch_defs cmd_defs)
  have h: "handle_arg ex_ext ''-d'' (Some ''1'') [] ?l1 = (None, True, [], ?l1\<lparr>d_arg := 1\<rparr>)"
    by (simp add: cmd_defs)
  have r: "run ?l0" "\<not> run ?l1" "\<not> vtc_error ex_ext (calls ?l0)"
    "\<not> vtc_error ex_ext (calls ?l1)"
    by (simp_all add: ex_defs)
  have st: "logexpect_states ex_ext [''-d'', ''1''] ?ws ?l0 = [?l0, ?l1, ?l1\<lparr>d_arg := 1\<rparr>]"
    using w h r by simp
  have ar: "logexpect_args ex_ext [''-d'', ''1''] ?ws ?l0 = (Cmd_done, [], ?l1\<lparr>d_arg := 1\<rparr>)"
    using w h r by simp
  from implicit_wait_rule [of ex_ext "[''-d'', ''1'']" ?ws ?le] show ?thesis
    unfolding e st ar using r by (simp add: ex_defs)
qed


end
